theory Spec2Isabelle
  imports Complex_Main "HOL-Library.AList" "HOL-Library.Sublist"
begin

section \<open>Strings, errors and dictionaries\<close>

text \<open>
  A Python \<open>str\<close> is a sequence of Unicode code points, and \<open>len\<close> counts code points.
  The learner names the initial state of every automaton \<open>u"\<lambda>"\<close>, a one-character
  string outside Latin-1, so strings are lists of code points here; \<open>str_of\<close> turns an
  ASCII literal into such a list.
\<close>

type_synonym str = "int list"

definition str_of :: "string \<Rightarrow> str" where
  "str_of cs = map of_char cs"

text \<open>The string \<open>u"\<lambda>"\<close>: one code point, 955.\<close>

definition lam :: str where
  "lam = [955]"

text \<open>
  Exceptions of the source. Both assertions of \<open>DFA.next_state\<close> raise Python's
  \<open>AssertionError\<close>; they are told apart by their messages (\<open>Unknown state\<close>,
  \<open>Unknown symbol\<close>), as is the assertion of \<open>to_dfa\<close> (\<open>Observation table is not
  consistent!\<close>).
\<close>

datatype error =
    UnknownState
  | UnknownSymbol
  | InconsistentTable
  | KeyError
  | IndexError
  | NameError
  | ValueError

section \<open>DFA.py\<close>

text \<open>
  The alphabet of a \<open>DFA\<close> is documented as a set, list or tuple of symbols that
  \<open>can be str if each char stands for a unique symbol\<close>. The class uses it through
  \<open>in\<close> only, and Python's \<open>in\<close> tells the two apart: on a set, list or tuple it is
  membership, on a \<open>str\<close> it asks whether the left operand occurs as a contiguous
  substring (\<open>'ab' in 'ab'\<close> and \<open>'' in 'ab'\<close> are both true).
\<close>

datatype alphabet =
    Chars str
  | Symbols "str list"

fun substring :: "str \<Rightarrow> str \<Rightarrow> bool" where
  "substring a [] \<longleftrightarrow> a = []"
| "substring a (c # cs) \<longleftrightarrow> prefix a (c # cs) \<or> substring a cs"

text \<open>The test \<open>a in self.A\<close>.\<close>

fun py_in :: "str \<Rightarrow> alphabet \<Rightarrow> bool" where
  "py_in a (Chars s) \<longleftrightarrow> substring a s"
| "py_in a (Symbols xs) \<longleftrightarrow> a \<in> set xs"

text \<open>
  The fields of class \<open>DFA\<close>. The states and the final states are sets, lists or
  tuples of strings, used through \<open>in\<close> only; \<open>d\<close> is the nested dictionary
  \<open>{q: {a: next_q}}\<close>, an association list of association lists (dictionaries keep
  their keys in insertion order).
\<close>

record DFA =
  A_dfa :: alphabet
  q0 :: str
  F :: "str list"
  Q :: "str list"
  d :: "(str \<times> (str \<times> str) list) list"

text \<open>
  \<^verbatim>\<open>
  def next_state(self, q, a):
      if not a: # when a is an empty string
          return q
      assert q in self.Q, f"Unknown state: {q}"
      assert a in self.A, f"Unknown symbol: {a}"
      return self.d[q][a]
  \<close>
\<close>

definition next_state :: "DFA \<Rightarrow> str \<Rightarrow> str \<Rightarrow> error + str" where
  "next_state m q a =
     (if a = [] then Inr q
      else if q \<notin> set (Q m) then Inl UnknownState
      else if \<not> py_in a (A_dfa m) then Inl UnknownSymbol
      else (case map_of (d m) q of
              None \<Rightarrow> Inl KeyError
            | Some row \<Rightarrow> (case map_of row a of None \<Rightarrow> Inl KeyError | Some q' \<Rightarrow> Inr q')))"

definition is_final :: "DFA \<Rightarrow> str \<Rightarrow> bool" where
  "is_final m q \<longleftrightarrow> q \<in> set (F m)"

text \<open>The loop \<open>for sym in string: q = self.next_state(q, sym)\<close>; each \<open>sym\<close> is a
  one-character string.\<close>

fun run :: "DFA \<Rightarrow> str \<Rightarrow> str \<Rightarrow> error + str" where
  "run m q [] = Inr q"
| "run m q (c # cs) =
     (case next_state m q [c] of Inl e \<Rightarrow> Inl e | Inr q' \<Rightarrow> run m q' cs)"

definition recognize :: "DFA \<Rightarrow> str \<Rightarrow> error + bool" where
  "recognize m string =
     (if string = [] then Inr (is_final m (q0 m))
      else (case run m (q0 m) string of Inl e \<Rightarrow> Inl e | Inr q \<Rightarrow> Inr (is_final m q)))"

section \<open>utils.py\<close>

text \<open>
  \<^verbatim>\<open>
  def all_words_of_length(length, alphabet):
      return [''.join(list(b)) for b in itertools.product(alphabet, repeat=length)]
  \<close>
  The product varies its last coordinate fastest; its only element for length 0 is the
  empty tuple.
\<close>

fun all_words_of_length :: "nat \<Rightarrow> str list \<Rightarrow> str list" where
  "all_words_of_length 0 alphabet = [[]]"
| "all_words_of_length (Suc n) alphabet =
     concat (map (\<lambda>a. map (\<lambda>w. a @ w) (all_words_of_length n alphabet)) alphabet)"

section \<open>Lstar.py: the observation table\<close>

text \<open>
  The fields of class \<open>ObservationTable\<close>. A Python \<open>dict\<close> keeps its keys in
  insertion order and is an association list here (\<open>AList.update\<close> overwrites in place
  or appends, as assignment to a key does). A Python \<open>set\<close> is the list of its
  elements in iteration order; Python does not specify that order (string hashes differ
  from process to process), and the model puts a new element last. The alphabet, a set,
  list, tuple or \<open>str\<close>, is iterated and measured with \<open>len\<close> only, and is the list of its
  symbols in iteration order (of its characters, for a \<open>str\<close>). The teacher is a
  function, and \<open>asked\<close> is not a field of the source: it logs, in order, every string
  the teacher has been called on, so that oracle calls can be counted.
\<close>

record ObservationTable =
  A :: "str list"
  T :: "str \<Rightarrow> bool"
  dfa :: "DFA option"
  queried :: "(str \<times> bool) list"
  S :: "str list"
  SdotA :: "str list"
  E :: "str list"
  S_rows :: "(str \<times> bool list) list"
  SdotA_rows :: "(str \<times> bool list) list"
  cur_ce_len :: nat
  max_ce_len :: int
  asked :: "str list"

text \<open>\<open>set.add\<close> and the constructor \<open>set(iterable)\<close>.\<close>

definition set_add :: "'a \<Rightarrow> 'a list \<Rightarrow> 'a list" where
  "set_add x xs = (if x \<in> set xs then xs else xs @ [x])"

definition py_set :: "'a list \<Rightarrow> 'a list" where
  "py_set xs = fold set_add xs []"

text \<open>Python's \<open>int(x)\<close> on a float truncates towards zero.\<close>

definition py_int :: "real \<Rightarrow> int" where
  "py_int x = (if 0 \<le> x then \<lfloor>x\<rfloor> else \<lceil>x\<rceil>)"

text \<open>
  \<^verbatim>\<open>
  def __get_max_ce_len(self, max_ce_searches):
      A_size = len(self.A)
      if A_size == 1:
          return max_ce_iters
      m = max_ce_searches
      a_2_n_plus_1 = (m+1+A_size)*(A_size-1)+1
      max_ce_len = log(a_2_n_plus_1, A_size) - 1
      if max_ce_len >= int(max_ce_len) + 0.8:
          max_ce_len = int(max_ce_len) + 1
      else:
          max_ce_len = int(max_ce_len)
      return max_ce_len
  \<close>
  The name \<open>max_ce_iters\<close> is bound nowhere in the module, so the first branch raises
  \<open>NameError\<close>. \<open>math.log(x, base)\<close> raises \<open>ValueError\<close> unless both arguments are
  positive (base 1 is taken by the first branch).

  The source computes in IEEE doubles: the logarithm is the C library's, \<open>- 1\<close> and
  \<open>+ 0.8\<close> round their results, and \<open>0.8\<close> itself is the double nearest to four
  fifths. Which double the library's logarithm returns depends on the platform, so the
  model fixes none of them. \<open>math_log x b\<close> stands for the double that \<open>log(x, b)\<close>
  returns and \<open>double x\<close> for the double to which an operation rounds its exact result
  \<open>x\<close>; all that is known of either is that it lies within \<open>10\<^sup>-\<^sup>9\<close> of the real number
  it approximates, for \<open>x \<ge> 1\<close> and a base of at least 2, and for results up to
  \<open>2\<^sup>2\<^sup>0\<close> in size (doubles are far closer there). Whatever holds of \<open>get_max_ce_len\<close>
  below holds for every logarithm and every rounding within that distance. The product
  \<open>(m+1+A_size)*(A_size-1)+1\<close> is taken exact, as it is for Python's integers and for
  floats of integer value below \<open>2\<^sup>5\<^sup>3\<close>, the default \<open>1e+5\<close> among them.
\<close>

definition close_to_log :: "(real \<Rightarrow> real \<Rightarrow> real) \<Rightarrow> bool" where
  "close_to_log f \<longleftrightarrow> (\<forall>x b. 1 \<le> x \<and> 2 \<le> b \<longrightarrow> \<bar>f x b - log b x\<bar> \<le> 1 / 10 ^ 9)"

definition math_log :: "real \<Rightarrow> real \<Rightarrow> real" where
  "math_log = (SOME f. close_to_log f)"

definition close_to_exact :: "(real \<Rightarrow> real) \<Rightarrow> bool" where
  "close_to_exact r \<longleftrightarrow> (\<forall>x. \<bar>x\<bar> \<le> 2 ^ 20 \<longrightarrow> \<bar>r x - x\<bar> \<le> 1 / 10 ^ 9)"

definition double :: "real \<Rightarrow> real" where
  "double = (SOME r. close_to_exact r)"

definition a_2_n_plus_1 :: "nat \<Rightarrow> real \<Rightarrow> real" where
  "a_2_n_plus_1 A_size m = (m + 1 + real A_size) * (real A_size - 1) + 1"

definition get_max_ce_len :: "ObservationTable \<Rightarrow> real \<Rightarrow> error + int" where
  "get_max_ce_len t max_ce_searches =
     (let A_size = length (A t) in
      if A_size = 1 then Inl NameError
      else
        let m = max_ce_searches in
        if a_2_n_plus_1 A_size m \<le> 0 \<or> A_size = 0 then Inl ValueError
        else
          let max_ce_len = double (math_log (a_2_n_plus_1 A_size m) (real A_size) - 1)
          in if max_ce_len \<ge> double (real_of_int (py_int max_ce_len) + double (4 / 5))
             then Inr (py_int max_ce_len + 1)
             else Inr (py_int max_ce_len))"

text \<open>\<open>get_table_size\<close> and \<open>get_num_of_queries\<close>.\<close>

definition get_table_size :: "ObservationTable \<Rightarrow> nat" where
  "get_table_size t = (length (S t) + length (SdotA t)) * length (E t)"

definition get_num_of_queries :: "ObservationTable \<Rightarrow> nat" where
  "get_num_of_queries t = length (queried t)"

text \<open>
  \<^verbatim>\<open>
  def _query(self, s):
      if s in self.queried:
          return self.queried[s]
      answer = self.T(s)
      self.queried[s] = answer
      return answer
  \<close>
\<close>

definition query :: "str \<Rightarrow> ObservationTable \<Rightarrow> bool \<times> ObservationTable" where
  "query s t =
     (case map_of (queried t) s of
        Some answer \<Rightarrow> (answer, t)
      | None \<Rightarrow>
          (let answer = T t s
           in (answer, t\<lparr>queried := AList.update s answer (queried t),
                         asked := asked t @ [s]\<rparr>)))"

text \<open>The generator \<open>tuple(self._query(s+e) for e in E)\<close>.\<close>

fun query_all :: "str \<Rightarrow> str list \<Rightarrow> ObservationTable \<Rightarrow> bool list \<times> ObservationTable" where
  "query_all s [] t = ([], t)"
| "query_all s (e # es) t =
     (let (v, t1) = query (s @ e) t; (vs, t2) = query_all s es t1 in (v # vs, t2))"

text \<open>
  Both row dictionaries are \<open>defaultdict(tuple)\<close>: reading a missing key stores the
  empty tuple under it and returns it.
\<close>

definition dd_get :: "str \<Rightarrow> (str \<times> bool list) list \<Rightarrow> bool list \<times> (str \<times> bool list) list" where
  "dd_get s rows =
     (case map_of rows s of Some row \<Rightarrow> (row, rows) | None \<Rightarrow> ([], rows @ [(s, [])]))"

text \<open>Which of the two dictionaries a call of \<open>_fill_row\<close> is given as its \<open>table\<close>.\<close>

datatype which_rows = In_S_rows | In_SdotA_rows

definition get_rows :: "which_rows \<Rightarrow> ObservationTable \<Rightarrow> (str \<times> bool list) list" where
  "get_rows w t = (case w of In_S_rows \<Rightarrow> S_rows t | In_SdotA_rows \<Rightarrow> SdotA_rows t)"

definition set_rows :: "which_rows \<Rightarrow> (str \<times> bool list) list \<Rightarrow> ObservationTable \<Rightarrow> ObservationTable" where
  "set_rows w rows t =
     (case w of In_S_rows \<Rightarrow> t\<lparr>S_rows := rows\<rparr> | In_SdotA_rows \<Rightarrow> t\<lparr>SdotA_rows := rows\<rparr>)"

text \<open>
  \<^verbatim>\<open>
  def _fill_row(self, s, table):
      row = table[s]
      E = self.E[len(row):]
      if E:
          row += tuple(self._query(s+e) for e in E)
          table.update({s: row})
  \<close>
\<close>

definition fill_row :: "str \<Rightarrow> which_rows \<Rightarrow> ObservationTable \<Rightarrow> ObservationTable" where
  "fill_row s w t =
     (let (row, rows) = dd_get s (get_rows w t);
          t0 = set_rows w rows t;
          E' = drop (length row) (E t0)
      in if E' \<noteq> []
         then (let (answers, t1) = query_all s E' t0
               in set_rows w (AList.update s (row @ answers) (get_rows w t1)) t1)
         else t0)"

definition fill_S_rows :: "ObservationTable \<Rightarrow> ObservationTable" where
  "fill_S_rows t = fold (\<lambda>s. fill_row s In_S_rows) (S t) t"

definition fill_SdotA_rows :: "ObservationTable \<Rightarrow> ObservationTable" where
  "fill_SdotA_rows t = fold (\<lambda>s. fill_row s In_SdotA_rows) (SdotA t) t"

text \<open>
  \<^verbatim>\<open>
  def __init__(self, alphabet, teacher, max_ce_len=None, max_ce_searches=1e+5):
      self.A = alphabet
      self.T = teacher
      self.dfa = None
      self.queried = dict()
      self.S = {""}
      self.SdotA = set(alphabet)
      self.E = [""]
      self.S_rows = defaultdict(tuple)
      self.SdotA_rows = defaultdict(tuple)
      self._fill_S_rows()
      self._fill_SdotA_rows()
      self.cur_ce_len = 2
      self.max_ce_len = self.__get_max_ce_len(max_ce_searches)
      if max_ce_len and max_ce_len < self.max_ce_len:
          self.max_ce_len = max_ce_len
  \<close>
  \<open>new_table\<close> holds the fields as assigned before the rows are filled
  (\<open>max_ce_len\<close>, not yet assigned then, is 0 in it). The optional cap is \<open>None\<close>
  or an integer; \<open>None\<close> and 0 are both false in the last test.
\<close>

definition new_table :: "str list \<Rightarrow> (str \<Rightarrow> bool) \<Rightarrow> ObservationTable" where
  "new_table alphabet teacher =
     \<lparr>A = alphabet, T = teacher, dfa = None, queried = [],
      S = [[]], SdotA = py_set alphabet, E = [[]],
      S_rows = [], SdotA_rows = [],
      cur_ce_len = 2, max_ce_len = 0, asked = []\<rparr>"

definition init :: "str list \<Rightarrow> (str \<Rightarrow> bool) \<Rightarrow> int option \<Rightarrow> real \<Rightarrow> error + ObservationTable" where
  "init alphabet teacher cap max_ce_searches =
     (let t1 = fill_SdotA_rows (fill_S_rows (new_table alphabet teacher))
      in case get_max_ce_len t1 max_ce_searches of
           Inl e \<Rightarrow> Inl e
         | Inr n \<Rightarrow>
             Inr (t1\<lparr>max_ce_len :=
                       (case cap of
                          None \<Rightarrow> n
                        | Some k \<Rightarrow> if k \<noteq> 0 \<and> k < n then k else n)\<rparr>))"

text \<open>
  \<^verbatim>\<open>
  def make_more_consistent(self):
      for s1 in self.S:
          row1 = self.S_rows[s1]
          for s2 in self.S:
              row2 = self.S_rows[s2]
              if s1 != s2 and row1 == row2:
                  for a in self.A:
                      for e in self.E:
                          ae = a + e
                          q1 = self._query(s1 + ae)
                          q2 = self._query(s2 + ae)
                          if q1 != q2:
                              self.E.append(ae)
                              self._fill_S_rows()
                              self._fill_SdotA_rows()
                              return True
  \<close>
  One function per loop, innermost first. Each returns the table it leaves behind and
  whether the method has returned \<open>True\<close>; falling off the end returns \<open>None\<close>, which
  the driver's \<open>while\<close> takes as false.
\<close>

definition S_rows_get :: "str \<Rightarrow> ObservationTable \<Rightarrow> bool list \<times> ObservationTable" where
  "S_rows_get s t = (let (row, rows) = dd_get s (S_rows t) in (row, t\<lparr>S_rows := rows\<rparr>))"

fun consistent_for_e :: "str \<Rightarrow> str \<Rightarrow> str \<Rightarrow> str list \<Rightarrow> ObservationTable \<Rightarrow> bool \<times> ObservationTable" where
  "consistent_for_e s1 s2 a [] t = (False, t)"
| "consistent_for_e s1 s2 a (e # es) t =
     (let ae = a @ e;
          (q1, t1) = query (s1 @ ae) t;
          (q2, t2) = query (s2 @ ae) t1
      in if q1 \<noteq> q2
         then (True, fill_SdotA_rows (fill_S_rows (t2\<lparr>E := E t2 @ [ae]\<rparr>)))
         else consistent_for_e s1 s2 a es t2)"

fun consistent_for_a :: "str \<Rightarrow> str \<Rightarrow> str list \<Rightarrow> ObservationTable \<Rightarrow> bool \<times> ObservationTable" where
  "consistent_for_a s1 s2 [] t = (False, t)"
| "consistent_for_a s1 s2 (a # as) t =
     (let (done, t1) = consistent_for_e s1 s2 a (E t) t
      in if done then (True, t1) else consistent_for_a s1 s2 as t1)"

fun consistent_for_s2 :: "str \<Rightarrow> bool list \<Rightarrow> str list \<Rightarrow> ObservationTable \<Rightarrow> bool \<times> ObservationTable" where
  "consistent_for_s2 s1 row1 [] t = (False, t)"
| "consistent_for_s2 s1 row1 (s2 # ss) t =
     (let (row2, t1) = S_rows_get s2 t
      in if s1 \<noteq> s2 \<and> row1 = row2
         then (let (done, t2) = consistent_for_a s1 s2 (A t1) t1
               in if done then (True, t2) else consistent_for_s2 s1 row1 ss t2)
         else consistent_for_s2 s1 row1 ss t1)"

fun consistent_for_s1 :: "str list \<Rightarrow> ObservationTable \<Rightarrow> bool \<times> ObservationTable" where
  "consistent_for_s1 [] t = (False, t)"
| "consistent_for_s1 (s1 # ss) t =
     (let (row1, t1) = S_rows_get s1 t;
          (done, t2) = consistent_for_s2 s1 row1 (S t1) t1
      in if done then (True, t2) else consistent_for_s1 ss t2)"

definition make_more_consistent :: "ObservationTable \<Rightarrow> bool \<times> ObservationTable" where
  "make_more_consistent t = consistent_for_s1 (S t) t"

text \<open>
  \<^verbatim>\<open>
  def make_more_closed(self):
      S_states = set(row for row in self.S_rows.values())
      for s, row in self.SdotA_rows.items():
          if row not in S_states:
              self.S.add(s)
              self._fill_row(s, self.S_rows)
              self.SdotA.remove(s)
              self.SdotA_rows.pop(s)
              for a in self.A:
                  self.SdotA.add(s+a)
                  self._fill_row(s+a, self.SdotA_rows)
              return True
  \<close>
  The loop returns at the first item whose row is no row of \<open>S\<close>: that item is what
  \<open>find\<close> yields. \<open>set.remove\<close> raises \<open>KeyError\<close> on a missing element.
\<close>

definition add_extension :: "str \<Rightarrow> str \<Rightarrow> ObservationTable \<Rightarrow> ObservationTable" where
  "add_extension s a t = fill_row (s @ a) In_SdotA_rows (t\<lparr>SdotA := set_add (s @ a) (SdotA t)\<rparr>)"

definition make_more_closed :: "ObservationTable \<Rightarrow> error + (bool \<times> ObservationTable)" where
  "make_more_closed t =
     (let S_states = set (map snd (S_rows t))
      in case find (\<lambda>(s, row). row \<notin> S_states) (SdotA_rows t) of
           None \<Rightarrow> Inr (False, t)
         | Some (s, row) \<Rightarrow>
             (let t1 = fill_row s In_S_rows (t\<lparr>S := set_add s (S t)\<rparr>)
              in if s \<notin> set (SdotA t1) then Inl KeyError
                 else
                   (let t2 = t1\<lparr>SdotA := removeAll s (SdotA t1),
                                 SdotA_rows := AList.delete s (SdotA_rows t1)\<rparr>
                    in Inr (True, fold (add_extension s) (A t2) t2))))"

text \<open>
  \<^verbatim>\<open>
  def _make_row_to_state_map(self):
      row_to_state = {self.S_rows[""]: u"\u03BB"}
      for s in sorted(self.S, key=len)[1:]: # skip init state
          row = self.S_rows[s]
          if row not in row_to_state:
              row_to_state[row] = s
      return row_to_state
  \<close>
  \<open>sorted\<close> is stable, as \<open>sort_key\<close> is: prefixes of one length stay in the
  iteration order of \<open>S\<close>. The result is used for lookups only and is a map.
\<close>

fun row_to_state_loop ::
  "str list \<Rightarrow> (bool list \<rightharpoonup> str) \<Rightarrow> ObservationTable \<Rightarrow> (bool list \<rightharpoonup> str) \<times> ObservationTable" where
  "row_to_state_loop [] row_to_state t = (row_to_state, t)"
| "row_to_state_loop (s # ss) row_to_state t =
     (let (row, t1) = S_rows_get s t
      in if row_to_state row = None
         then row_to_state_loop ss (row_to_state(row \<mapsto> s)) t1
         else row_to_state_loop ss row_to_state t1)"

definition make_row_to_state_map :: "ObservationTable \<Rightarrow> (bool list \<rightharpoonup> str) \<times> ObservationTable" where
  "make_row_to_state_map t =
     (let (row0, t1) = S_rows_get [] t
      in row_to_state_loop (tl (sort_key length (S t1))) [row0 \<mapsto> lam] t1)"

text \<open>
  \<^verbatim>\<open>
  def to_dfa(self):
      delta = dict()
      states = set()
      final_states = set()
      row_to_state = self._make_row_to_state_map()
      init_state = row_to_state[self.S_rows[""]]
      table = self.S_rows.copy()
      table.update(self.SdotA_rows)
      for s in sorted(table.keys(), key=len)[1:]:
          prefix, suffix = s[:-1], s[-1]
          prev_q = row_to_state[table[prefix]]
          cur_q = row_to_state[table[s]]
          if prev_q in delta:
              if suffix not in delta[prev_q]:
                  delta[prev_q].update({suffix: cur_q})
              else:
                  msg = "Observation table is not consistent!"
                  assert cur_q == delta[prev_q][suffix], msg
          else:
              delta[prev_q] = {suffix: cur_q}
          states.add(prev_q)
          states.add(cur_q)
          if self.queried[prefix]:
              final_states.add(prev_q)
          if self.queried[s]:
              final_states.add(cur_q)
      dfa = DFA(self.A, init_state, final_states, states, delta)
      return dfa
  \<close>
  \<open>table\<close> is a copy, a \<open>defaultdict\<close> too: a missing key reads as the empty tuple
  (that the read also stores the key changes no later read). The loop carries
  \<open>delta\<close>, \<open>states\<close> and \<open>final_states\<close>; every failing lookup and the assertion are
  results. \<open>add_transition\<close> is the \<open>if prev_q in delta ... else ...\<close> of the loop body.

  The table holds its alphabet as the list of its symbols in iteration order, whichever
  collection the caller passed, and hands that list to the automaton. Had the caller
  passed a \<open>str\<close>, the automaton's alphabet would be that \<open>str\<close>; for a one-character
  \<open>sym\<close>, all that \<open>recognize\<close> passes to \<open>next_state\<close>, the test \<open>sym in self.A\<close> has
  the same answer on a \<open>str\<close> and on the list of its characters (lemma \<open>py_in_char\<close>).
\<close>

definition dict_update_all :: "('k \<times> 'v) list \<Rightarrow> ('k \<times> 'v) list \<Rightarrow> ('k \<times> 'v) list" where
  "dict_update_all table other = fold (\<lambda>(k, v). AList.update k v) other table"

definition table_get :: "(str \<times> bool list) list \<Rightarrow> str \<Rightarrow> bool list" where
  "table_get table s = (case map_of table s of Some row \<Rightarrow> row | None \<Rightarrow> [])"

type_synonym transitions = "(str \<times> (str \<times> str) list) list"

type_synonym dfa_acc = "transitions \<times> str list \<times> str list"

definition add_transition :: "str \<Rightarrow> str \<Rightarrow> str \<Rightarrow> transitions \<Rightarrow> error + transitions" where
  "add_transition prev_q a cur_q delta =
     (case map_of delta prev_q of
        Some out \<Rightarrow>
          (case map_of out a of
             None \<Rightarrow> Inr (AList.update prev_q (AList.update a cur_q out) delta)
           | Some q' \<Rightarrow> if cur_q = q' then Inr delta else Inl InconsistentTable)
      | None \<Rightarrow> Inr (AList.update prev_q [(a, cur_q)] delta))"

definition to_dfa_step ::
  "ObservationTable \<Rightarrow> (bool list \<rightharpoonup> str) \<Rightarrow> (str \<times> bool list) list \<Rightarrow> str \<Rightarrow> dfa_acc \<Rightarrow> error + dfa_acc" where
  "to_dfa_step t row_to_state table s acc =
     (case acc of (delta, states, final_states) \<Rightarrow>
      if s = [] then Inl IndexError
      else
        let prefix = butlast s; suffix = [last s] in
        case row_to_state (table_get table prefix) of
          None \<Rightarrow> Inl KeyError
        | Some prev_q \<Rightarrow>
           (case row_to_state (table_get table s) of
              None \<Rightarrow> Inl KeyError
            | Some cur_q \<Rightarrow>
               (case add_transition prev_q suffix cur_q delta of
                  Inl e \<Rightarrow> Inl e
                | Inr delta' \<Rightarrow>
                   (let states' = set_add cur_q (set_add prev_q states)
                    in case map_of (queried t) prefix of
                         None \<Rightarrow> Inl KeyError
                       | Some fp \<Rightarrow>
                          (let final1 = (if fp then set_add prev_q final_states else final_states)
                           in case map_of (queried t) s of
                                None \<Rightarrow> Inl KeyError
                              | Some fs \<Rightarrow>
                                  Inr (delta', states',
                                       if fs then set_add cur_q final1 else final1))))))"

fun to_dfa_loop ::
  "ObservationTable \<Rightarrow> (bool list \<rightharpoonup> str) \<Rightarrow> (str \<times> bool list) list \<Rightarrow> str list \<Rightarrow> dfa_acc \<Rightarrow> error + dfa_acc" where
  "to_dfa_loop t row_to_state table [] acc = Inr acc"
| "to_dfa_loop t row_to_state table (s # ss) acc =
     (case to_dfa_step t row_to_state table s acc of
        Inl e \<Rightarrow> Inl e
      | Inr acc' \<Rightarrow> to_dfa_loop t row_to_state table ss acc')"

definition to_dfa :: "ObservationTable \<Rightarrow> error + (DFA \<times> ObservationTable)" where
  "to_dfa t =
     (let (row_to_state, t1) = make_row_to_state_map t;
          (row0, t2) = S_rows_get [] t1
      in case row_to_state row0 of
           None \<Rightarrow> Inl KeyError
         | Some init_state \<Rightarrow>
            (let table = dict_update_all (S_rows t2) (SdotA_rows t2)
             in case to_dfa_loop t2 row_to_state table
                       (tl (sort_key length (map fst table))) ([], [], []) of
                  Inl e \<Rightarrow> Inl e
                | Inr (delta, states, final_states) \<Rightarrow>
                    Inr (\<lparr>A_dfa = Symbols (A t2), q0 = init_state, F = final_states,
                          Q = states, d = delta\<rparr>, t2)))"

text \<open>
  \<^verbatim>\<open>
  def find_counterexample(self):
      dfa = self.to_dfa()
      self.dfa = dfa
      while True:
          if self.cur_ce_len > self.max_ce_len:
              break
          for t in all_words_of_length(self.cur_ce_len, self.A):
              true = self.T(t)
              pred = dfa.recognize(t)
              if pred != true:
                  return t
          self.cur_ce_len += 1
  \<close>
  The teacher is called directly here, not through \<open>_query\<close>; of the table, the
  inner loop touches only the log of teacher calls, and returns the first word on
  which automaton and teacher differ. The outer loop stops because \<open>cur_ce_len\<close>
  grows towards \<open>max_ce_len\<close>.
\<close>

fun test_words ::
  "DFA \<Rightarrow> (str \<Rightarrow> bool) \<Rightarrow> str list \<Rightarrow> str list \<Rightarrow> error + (str option \<times> str list)" where
  "test_words m teacher [] calls = Inr (None, calls)"
| "test_words m teacher (w # ws) calls =
     (let true = teacher w; calls1 = calls @ [w]
      in case recognize m w of
           Inl e \<Rightarrow> Inl e
         | Inr pred \<Rightarrow> if pred \<noteq> true then Inr (Some w, calls1)
                      else test_words m teacher ws calls1)"

function search_loop :: "DFA \<Rightarrow> ObservationTable \<Rightarrow> error + (str option \<times> ObservationTable)" where
  "search_loop m t =
     (if int (cur_ce_len t) > max_ce_len t then Inr (None, t)
      else
        (case test_words m (T t) (all_words_of_length (cur_ce_len t) (A t)) (asked t) of
           Inl e \<Rightarrow> Inl e
         | Inr (Some w, calls) \<Rightarrow> Inr (Some w, t\<lparr>asked := calls\<rparr>)
         | Inr (None, calls) \<Rightarrow>
             search_loop m (t\<lparr>asked := calls, cur_ce_len := cur_ce_len t + 1\<rparr>)))"
  by pat_completeness auto
termination
  by (relation "measure (\<lambda>(m, t). nat (max_ce_len t + 1 - int (cur_ce_len t)))") auto

declare search_loop.simps [simp del]

definition find_counterexample :: "ObservationTable \<Rightarrow> error + (str option \<times> ObservationTable)" where
  "find_counterexample t =
     (case to_dfa t of
        Inl e \<Rightarrow> Inl e
      | Inr (m, t1) \<Rightarrow> search_loop m (t1\<lparr>dfa := Some m\<rparr>))"

text \<open>
  \<^verbatim>\<open>
  def resolve_counterexample(self, ce):
      for i in range(len(ce)+1, 0, -1):
          prefix = ce[:i]
          if prefix not in self.S:
              self.S.add(prefix)
              self._fill_row(prefix, self.S_rows)
              if prefix in self.SdotA:
                  self.SdotA.remove(prefix)
                  self.SdotA_rows.pop(prefix)
              for a in self.A:
                  sa = prefix+a
                  if sa not in self.S:
                      self.SdotA.add(sa)
                      self._fill_row(sa, self.SdotA_rows)
  \<close>
  \<open>dict.pop\<close> without a default raises \<open>KeyError\<close> on a missing key. The
  loop variable \<open>prefix\<close> is \<open>pfx\<close> below; \<open>discard_from_SdotA\<close> is the inner
  \<open>if prefix in self.SdotA\<close>, \<open>resolve_prefix\<close> one round of the loop.
\<close>

definition add_extension_unless_in_S :: "str \<Rightarrow> str \<Rightarrow> ObservationTable \<Rightarrow> ObservationTable" where
  "add_extension_unless_in_S pfx a t =
     (let sa = pfx @ a in if sa \<notin> set (S t) then add_extension pfx a t else t)"

definition discard_from_SdotA :: "str \<Rightarrow> ObservationTable \<Rightarrow> error + ObservationTable" where
  "discard_from_SdotA pfx t =
     (if pfx \<in> set (SdotA t)
      then (if map_of (SdotA_rows t) pfx = None then Inl KeyError
            else Inr (t\<lparr>SdotA := removeAll pfx (SdotA t),
                         SdotA_rows := AList.delete pfx (SdotA_rows t)\<rparr>))
      else Inr t)"

definition resolve_prefix :: "str \<Rightarrow> ObservationTable \<Rightarrow> error + ObservationTable" where
  "resolve_prefix pfx t =
     (if pfx \<notin> set (S t)
      then
        (case discard_from_SdotA pfx (fill_row pfx In_S_rows (t\<lparr>S := set_add pfx (S t)\<rparr>)) of
           Inl e \<Rightarrow> Inl e
         | Inr t2 \<Rightarrow> Inr (fold (add_extension_unless_in_S pfx) (A t2) t2))
      else Inr t)"

fun resolve_loop :: "str list \<Rightarrow> ObservationTable \<Rightarrow> error + ObservationTable" where
  "resolve_loop [] t = Inr t"
| "resolve_loop (pfx # ps) t =
     (case resolve_prefix pfx t of Inl e \<Rightarrow> Inl e | Inr t1 \<Rightarrow> resolve_loop ps t1)"

definition resolve_counterexample :: "str \<Rightarrow> ObservationTable \<Rightarrow> error + ObservationTable" where
  "resolve_counterexample ce t =
     resolve_loop (map (\<lambda>i. take i ce) (rev [1..<length ce + 2])) t"

section \<open>Lstar.py: the driver\<close>

text \<open>
  \<^verbatim>\<open>
  def lstar(alphabet, teacher, max_ce_len=None, max_ce_searches=1e+5):
      table = ObservationTable(alphabet, teacher, max_ce_len, max_ce_searches)
      while True:
          while True:
              while table.make_more_consistent():
                  pass
              if table.make_more_closed():
                  continue
              else:
                  break
          ce = table.find_counterexample()
          if ce is None:
              return table
          table.resolve_counterexample(ce)
  \<close>
  No bound on the number of iterations is visible in the code, so each loop is a
  partial function: \<open>None\<close> is a run that does not return, \<open>Some (Inl e)\<close> a run that
  raises \<open>e\<close>, \<open>Some (Inr table)\<close> a run that returns \<open>table\<close>.
\<close>

partial_function (option) consistent_loop :: "ObservationTable \<Rightarrow> ObservationTable option" where
  "consistent_loop t =
     (case make_more_consistent t of (done, t1) \<Rightarrow> if done then consistent_loop t1 else Some t1)"

partial_function (option) refine_loop :: "ObservationTable \<Rightarrow> (error + ObservationTable) option" where
  "refine_loop t =
     Option.bind (consistent_loop t) (\<lambda>t1.
       case make_more_closed t1 of
         Inl e \<Rightarrow> Some (Inl e)
       | Inr (done, t2) \<Rightarrow> if done then refine_loop t2 else Some (Inr t2))"

partial_function (option) lstar_loop :: "ObservationTable \<Rightarrow> (error + ObservationTable) option" where
  "lstar_loop t =
     Option.bind (refine_loop t) (\<lambda>r.
       case r of
         Inl e \<Rightarrow> Some (Inl e)
       | Inr t1 \<Rightarrow>
          (case find_counterexample t1 of
             Inl e \<Rightarrow> Some (Inl e)
           | Inr (None, t2) \<Rightarrow> Some (Inr t2)
           | Inr (Some ce, t2) \<Rightarrow>
              (case resolve_counterexample ce t2 of
                 Inl e \<Rightarrow> Some (Inl e)
               | Inr t3 \<Rightarrow> lstar_loop t3)))"

definition lstar :: "str list \<Rightarrow> (str \<Rightarrow> bool) \<Rightarrow> int option \<Rightarrow> real \<Rightarrow> (error + ObservationTable) option" where
  "lstar alphabet teacher cap max_ce_searches =
     (case init alphabet teacher cap max_ce_searches of
        Inl e \<Rightarrow> Some (Inl e)
      | Inr table \<Rightarrow> lstar_loop table)"

text \<open>
  The same driver with a budget of passes, for evaluating a closed run: each pass is one
  call of \<open>make_more_consistent\<close> and whatever the nested loops do next, and the
  budget running out is \<open>None\<close>. Whatever it returns the driver returns
  (\<open>lstar_fuel_sound\<close> below).
\<close>

fun lstar_fuel :: "nat \<Rightarrow> ObservationTable \<Rightarrow> (error + ObservationTable) option" where
  "lstar_fuel 0 t = None"
| "lstar_fuel (Suc n) t =
    (case make_more_consistent t of (done, t1) \<Rightarrow>
       if done then lstar_fuel n t1
       else
        (case make_more_closed t1 of
           Inl e \<Rightarrow> Some (Inl e)
         | Inr (done, t2) \<Rightarrow>
            if done then lstar_fuel n t2
            else
             (case find_counterexample t2 of
               Inl e \<Rightarrow> Some (Inl e)
             | Inr (None, t3) \<Rightarrow> Some (Inr t3)
             | Inr (Some ce, t3) \<Rightarrow>
                (case resolve_counterexample ce t3 of
                   Inl e \<Rightarrow> Some (Inl e)
                 | Inr t4 \<Rightarrow> lstar_fuel n t4))))"

text \<open>
  What the learned automaton answers on a string, after a run of the driver: the
  \<open>table.dfa.recognize(s)\<close> of the caller. There is none when the run raised or did not
  return.
\<close>

definition candidate_accepts :: "(error + ObservationTable) option \<Rightarrow> str \<Rightarrow> (error + bool) option" where
  "candidate_accepts r s =
     (case r of
        Some (Inr t) \<Rightarrow> (case dfa t of Some m \<Rightarrow> Some (recognize m s) | None \<Rightarrow> None)
      | _ \<Rightarrow> None)"


section \<open>Closed and consistent tables\<close>

text \<open>
  The driver extracts an automaton when \<open>make_more_consistent\<close> and then
  \<open>make_more_closed\<close> have both found nothing to repair (each returns \<open>None\<close>; their
  docstrings: "if the table is (i.e., cannot be more) consistent", "closed"). That is
  what consistent and closed mean here.
\<close>

definition is_consistent :: "ObservationTable \<Rightarrow> bool" where
  "is_consistent t \<longleftrightarrow> \<not> fst (make_more_consistent t)"

definition is_closed :: "ObservationTable \<Rightarrow> bool" where
  "is_closed t \<longleftrightarrow> (case make_more_closed t of Inl e \<Rightarrow> False | Inr (done, t1) \<Rightarrow> \<not> done)"

text \<open>The row of a prefix in \<open>S_rows\<close>, and the place of an element in a list (the place
  of its first occurrence; a set's iteration order is the order of its list).\<close>

definition row_of :: "ObservationTable \<Rightarrow> str \<Rightarrow> bool list" where
  "row_of t s = table_get (S_rows t) s"

fun pos :: "'a \<Rightarrow> 'a list \<Rightarrow> nat" where
  "pos x [] = 0"
| "pos x (y # ys) = (if x = y then 0 else Suc (pos x ys))"


section \<open>Runs of public operations\<close>

text \<open>
  The driver does nothing to a table but call its four public methods. A run is a list
  of such calls, each applied to the table the one before has left; a call that raises
  ends the run with its error.
\<close>

datatype operation =
    Make_more_consistent
  | Make_more_closed
  | Find_counterexample
  | Resolve_counterexample str

fun perform :: "operation \<Rightarrow> ObservationTable \<Rightarrow> error + ObservationTable" where
  "perform Make_more_consistent t = Inr (snd (make_more_consistent t))"
| "perform Make_more_closed t =
     (case make_more_closed t of Inl e \<Rightarrow> Inl e | Inr (done, t1) \<Rightarrow> Inr t1)"
| "perform Find_counterexample t =
     (case find_counterexample t of Inl e \<Rightarrow> Inl e | Inr (ce, t1) \<Rightarrow> Inr t1)"
| "perform (Resolve_counterexample ce) t = resolve_counterexample ce t"

fun perform_all :: "operation list \<Rightarrow> ObservationTable \<Rightarrow> error + ObservationTable" where
  "perform_all [] t = Inr t"
| "perform_all (x # xs) t =
     (case perform x t of Inl e \<Rightarrow> Inl e | Inr t1 \<Rightarrow> perform_all xs t1)"


text \<open>A run from construction: \<open>ObservationTable(...)\<close>, then the calls.\<close>

definition learning_run ::
  "str list \<Rightarrow> (str \<Rightarrow> bool) \<Rightarrow> int option \<Rightarrow> real \<Rightarrow> operation list \<Rightarrow> error + ObservationTable" where
  "learning_run alphabet teacher cap max_ce_searches xs =
     (case init alphabet teacher cap max_ce_searches of
        Inl e \<Rightarrow> Inl e
      | Inr t \<Rightarrow> perform_all xs t)"

text \<open>The teacher calls of a run, in order; none are recorded for a run that raised.\<close>

definition oracle_calls :: "error + ObservationTable \<Rightarrow> str list" where
  "oracle_calls r = (case r of Inl e \<Rightarrow> [] | Inr t \<Rightarrow> asked t)"

text \<open>The fields of a table but its parameters, for comparing tables field by field.\<close>

definition table_data :: "ObservationTable \<Rightarrow> _" where
  "table_data t = (dfa t, queried t, S t, SdotA t, E t, S_rows t, SdotA_rows t, cur_ce_len t, asked t)"

section \<open>Example inputs\<close>

text \<open>Teachers and alphabets at which the theorems below are evaluated.\<close>

definition reject_all :: "str \<Rightarrow> bool" where
  "reject_all s = False"

definition multiple_of_3 :: "str \<Rightarrow> bool" where
  "multiple_of_3 s \<longleftrightarrow> length s mod 3 = 0"

definition only_aa :: "str \<Rightarrow> bool" where
  "only_aa s \<longleftrightarrow> s = str_of ''aa''"

definition three_words :: "str \<Rightarrow> bool" where
  "three_words s \<longleftrightarrow> s \<in> set [str_of ''aaa'', str_of ''abb'', str_of ''bab'']"

definition odd_length :: "str \<Rightarrow> bool" where
  "odd_length s \<longleftrightarrow> odd (length s)"

definition ab :: "str list" where
  "ab = [str_of ''a'', str_of ''b'']"

text \<open>
  The table after \<open>ObservationTable("ab", odd_length)\<close>, \<open>resolve_counterexample("b")\<close>
  and \<open>resolve_counterexample("a")\<close>, with \<open>S\<close> iterating in the order \<open>""\<close>, \<open>"b"\<close>,
  \<open>"a"\<close>.
\<close>

definition tie_table :: ObservationTable where
  "tie_table =
     \<lparr>A = ab, T = odd_length, dfa = None,
      queried = [([], False), (str_of ''a'', True), (str_of ''b'', True),
                 (str_of ''ba'', False), (str_of ''bb'', False),
                 (str_of ''aa'', False), (str_of ''ab'', False)],
      S = [[], str_of ''b'', str_of ''a''],
      SdotA = [str_of ''ba'', str_of ''bb'', str_of ''aa'', str_of ''ab''],
      E = [[]],
      S_rows = [([], [False]), (str_of ''b'', [True]), (str_of ''a'', [True])],
      SdotA_rows = [(str_of ''ba'', [False]), (str_of ''bb'', [False]),
                    (str_of ''aa'', [False]), (str_of ''ab'', [False])],
      cur_ce_len = 2, max_ce_len = 15,
      asked = [[], str_of ''a'', str_of ''b'', str_of ''ba'', str_of ''bb'',
               str_of ''aa'', str_of ''ab'']\<rparr>"

definition empty_or_lambda :: "str \<Rightarrow> bool" where
  "empty_or_lambda s \<longleftrightarrow> s = [] \<or> s = lam"

definition la :: "str list" where
  "la = [lam, str_of ''a'']"

text \<open>
  The table of the run \<open>lstar("\<lambda>a", empty_or_lambda)\<close> at the moment the driver asks for
  the second automaton: both repairs have just reported nothing to do.
\<close>

definition lambda_table :: ObservationTable where
  "lambda_table =
     \<lparr>A = la, T = empty_or_lambda,
      dfa = Some \<lparr>A_dfa = Symbols la, q0 = lam, F = [lam], Q = [lam, str_of ''a''],
                  d = [(lam, [(str_of ''a'', str_of ''a''), (lam, lam)]),
                       (str_of ''a'', [(lam, str_of ''a''), (str_of ''a'', str_of ''a'')])]\<rparr>,
      queried = [([], True), (lam, True), (str_of ''a'', False),
                 (str_of ''a'' @ lam, False), (str_of ''aa'', False),
                 (lam @ lam, False), (lam @ lam @ lam, False),
                 (lam @ lam @ str_of ''a'', False), (lam @ str_of ''a'', False),
                 (str_of ''a'' @ lam @ lam, False), (str_of ''aa'' @ lam, False),
                 (lam @ lam @ lam @ lam, False), (lam @ lam @ str_of ''a'' @ lam, False),
                 (lam @ str_of ''a'' @ lam, False)],
      S = [[], str_of ''a'', lam @ lam, lam],
      SdotA = [str_of ''a'' @ lam, str_of ''aa'', lam @ lam @ lam, lam @ lam @ str_of ''a'',
               lam @ str_of ''a''],
      E = [[], lam],
      S_rows = [([], [True, True]), (str_of ''a'', [False, False]),
                (lam @ lam, [False, False]), (lam, [True, False])],
      SdotA_rows = [(str_of ''a'' @ lam, [False, False]), (str_of ''aa'', [False, False]),
                    (lam @ lam @ lam, [False, False]), (lam @ lam @ str_of ''a'', [False, False]),
                    (lam @ str_of ''a'', [False, False])],
      cur_ce_len = 2, max_ce_len = 15,
      asked = [[], lam, str_of ''a'', str_of ''a'' @ lam, str_of ''aa'', lam @ lam, lam @ lam,
               lam @ lam @ lam, lam @ lam @ str_of ''a'', lam @ str_of ''a'',
               str_of ''a'' @ lam @ lam, str_of ''aa'' @ lam, lam @ lam @ lam @ lam,
               lam @ lam @ str_of ''a'' @ lam, lam @ str_of ''a'' @ lam]\<rparr>"

text \<open>
  The automaton of the class docstring, which accepts the words with an even number of
  \<open>a\<close> and an even number of \<open>b\<close>; its alphabet is the \<open>str\<close> \<open>"ab"\<close>.
\<close>

definition even_a_even_b :: DFA where
  "even_a_even_b =
     \<lparr>A_dfa = Chars (str_of ''ab''), q0 = lam, F = [lam],
      Q = [lam, str_of ''a'', str_of ''b'', str_of ''ab''],
      d = [(lam, [(str_of ''a'', str_of ''a''), (str_of ''b'', str_of ''b'')]),
           (str_of ''a'', [(str_of ''a'', lam), (str_of ''b'', str_of ''ab'')]),
           (str_of ''b'', [(str_of ''a'', str_of ''ab''), (str_of ''b'', lam)]),
           (str_of ''ab'', [(str_of ''a'', str_of ''b''), (str_of ''b'', str_of ''a'')])]\<rparr>"



definition only_c :: "str \<Rightarrow> bool" where
  "only_c s \<longleftrightarrow> s = str_of ''c''"

section \<open>Properties of the automaton\<close>

text \<open>
  For a one-character string the substring test on a \<open>str\<close> alphabet is membership of
  the character, so a \<open>str\<close> and the list of its characters declare the same
  one-character symbols.
\<close>

lemma substring_char: "substring [c] s \<longleftrightarrow> c \<in> set s"
  by (induction s) auto

lemma py_in_char: "py_in [c] (Chars s) \<longleftrightarrow> py_in [c] (Symbols (map (\<lambda>x. [x]) s))"
  by (auto simp add: substring_char)

text \<open>
  C8 (as stated). The claim says that \<open>next_state q a\<close> fails whenever \<open>q\<close> is not a
  declared state or \<open>a\<close> is not a declared symbol, the empty string included. The
  first line of \<open>next_state\<close> returns \<open>q\<close> for the empty string before either
  assertion is evaluated: with no states and no symbols declared at all, the state
  \<open>"q"\<close> and the symbol \<open>""\<close> give back \<open>"q"\<close>.
\<close>

theorem next_state_empty_symbol_returns:
  "next_state \<lparr>A_dfa = Symbols [], q0 = [], F = [], Q = [], d = []\<rparr> (str_of ''q'') []
     = Inr (str_of ''q'')"
  by (simp add: next_state_def)

text \<open>
  On a \<open>str\<close> alphabet the second assertion lets every substring of the alphabet
  pass, not only its characters: in the automaton of the class docstring the string
  \<open>"ab"\<close> is no symbol, yet \<open>next_state("\<lambda>", "ab")\<close> gets past \<open>assert a in self.A\<close> and
  ends in the dictionary lookup, with \<open>KeyError\<close>; the string \<open>"ba"\<close>, no substring, is
  stopped by the assertion.
\<close>

lemma next_state_substring_passes:
  "next_state even_a_even_b lam (str_of ''ab'') = Inl KeyError \<and>
   next_state even_a_even_b lam (str_of ''ba'') = Inl UnknownSymbol \<and>
   next_state even_a_even_b lam (str_of ''b'') = Inr (str_of ''b'')"
  by (simp add: next_state_def even_a_even_b_def str_of_def lam_def)

text \<open>
  C8 (amended). For a non-empty \<open>a\<close>: an undeclared state fails with the unknown-state
  assertion; a declared state fails with the unknown-symbol assertion when \<open>a in self.A\<close>
  is false, that is when \<open>a\<close> is no element of an alphabet given as a set, list or
  tuple, and no substring of an alphabet given as a \<open>str\<close>. For the empty symbol the
  state is returned unchanged, whether it is declared or not.
\<close>

theorem next_state_unknown_fails:
  "(a \<noteq> [] \<and> q \<notin> set (Q m) \<longrightarrow> next_state m q a = Inl UnknownState) \<and>
   (a \<noteq> [] \<and> q \<in> set (Q m) \<and> \<not> py_in a (A_dfa m) \<longrightarrow> next_state m q a = Inl UnknownSymbol) \<and>
   next_state m q [] = Inr q"
  by (simp add: next_state_def)

theorem next_state_unknown_fails_witness:
  "next_state even_a_even_b (str_of ''x'') (str_of ''a'') = Inl UnknownState \<and>
   next_state even_a_even_b lam (str_of ''c'') = Inl UnknownSymbol \<and>
   next_state (even_a_even_b\<lparr>A_dfa := Symbols [str_of ''a'', str_of ''b'']\<rparr>) lam (str_of ''ab'')
     = Inl UnknownSymbol"
  using next_state_unknown_fails [of "str_of ''a''" "str_of ''x''" even_a_even_b]
    next_state_unknown_fails [of "str_of ''c''" lam even_a_even_b]
    next_state_unknown_fails
      [of "str_of ''ab''" lam "even_a_even_b\<lparr>A_dfa := Symbols [str_of ''a'', str_of ''b'']\<rparr>"]
  by (simp add: even_a_even_b_def str_of_def lam_def)


section \<open>Fields an operation leaves alone\<close>

lemma new_table_sel [simp]:
  "A (new_table alphabet teacher) = alphabet" "T (new_table alphabet teacher) = teacher"
  "E (new_table alphabet teacher) = [[]]" "S (new_table alphabet teacher) = [[]]"
  "SdotA (new_table alphabet teacher) = py_set alphabet"
  "cur_ce_len (new_table alphabet teacher) = 2" "dfa (new_table alphabet teacher) = None"
  "queried (new_table alphabet teacher) = []" "asked (new_table alphabet teacher) = []"
  "S_rows (new_table alphabet teacher) = []" "SdotA_rows (new_table alphabet teacher) = []"
  by (simp_all add: new_table_def)

lemma query_frame [simp]:
  "A (snd (query s t)) = A t" "T (snd (query s t)) = T t" "E (snd (query s t)) = E t"
  "S (snd (query s t)) = S t" "SdotA (snd (query s t)) = SdotA t"
  "S_rows (snd (query s t)) = S_rows t" "SdotA_rows (snd (query s t)) = SdotA_rows t"
  "cur_ce_len (snd (query s t)) = cur_ce_len t" "max_ce_len (snd (query s t)) = max_ce_len t"
  "dfa (snd (query s t)) = dfa t"
  by (simp_all add: query_def Let_def split: option.splits)

lemma query_all_frame [simp]:
  "A (snd (query_all s es t)) = A t" "T (snd (query_all s es t)) = T t"
  "E (snd (query_all s es t)) = E t"
  "S (snd (query_all s es t)) = S t" "SdotA (snd (query_all s es t)) = SdotA t"
  "S_rows (snd (query_all s es t)) = S_rows t" "SdotA_rows (snd (query_all s es t)) = SdotA_rows t"
  "cur_ce_len (snd (query_all s es t)) = cur_ce_len t"
  "max_ce_len (snd (query_all s es t)) = max_ce_len t"
  "dfa (snd (query_all s es t)) = dfa t"
  by (induction es arbitrary: t; simp add: Let_def split: prod.splits; metis query_frame snd_conv)+

lemma set_rows_frame [simp]:
  "A (set_rows w r t) = A t" "T (set_rows w r t) = T t" "E (set_rows w r t) = E t"
  "S (set_rows w r t) = S t" "SdotA (set_rows w r t) = SdotA t"
  "cur_ce_len (set_rows w r t) = cur_ce_len t" "max_ce_len (set_rows w r t) = max_ce_len t"
  "dfa (set_rows w r t) = dfa t" "queried (set_rows w r t) = queried t"
  "asked (set_rows w r t) = asked t"
  by (simp_all add: set_rows_def split: which_rows.splits)

lemma fill_row_frame [simp]:
  "A (fill_row s w t) = A t" "T (fill_row s w t) = T t" "E (fill_row s w t) = E t"
  "S (fill_row s w t) = S t" "SdotA (fill_row s w t) = SdotA t"
  "cur_ce_len (fill_row s w t) = cur_ce_len t" "max_ce_len (fill_row s w t) = max_ce_len t"
  "dfa (fill_row s w t) = dfa t"
  by (simp_all add: fill_row_def Let_def split: prod.splits; metis query_all_frame set_rows_frame snd_conv)+

lemma fold_fill_row_frame [simp]:
  "A (fold (\<lambda>s. fill_row s w) xs t) = A t" "T (fold (\<lambda>s. fill_row s w) xs t) = T t"
  "E (fold (\<lambda>s. fill_row s w) xs t) = E t"
  "S (fold (\<lambda>s. fill_row s w) xs t) = S t" "SdotA (fold (\<lambda>s. fill_row s w) xs t) = SdotA t"
  "cur_ce_len (fold (\<lambda>s. fill_row s w) xs t) = cur_ce_len t"
  "max_ce_len (fold (\<lambda>s. fill_row s w) xs t) = max_ce_len t"
  "dfa (fold (\<lambda>s. fill_row s w) xs t) = dfa t"
  by (induction xs arbitrary: t; simp)+

lemma fill_rows_frame [simp]:
  "A (fill_S_rows t) = A t" "T (fill_S_rows t) = T t" "E (fill_S_rows t) = E t"
  "S (fill_S_rows t) = S t" "SdotA (fill_S_rows t) = SdotA t"
  "cur_ce_len (fill_S_rows t) = cur_ce_len t" "max_ce_len (fill_S_rows t) = max_ce_len t"
  "dfa (fill_S_rows t) = dfa t"
  "A (fill_SdotA_rows t) = A t" "T (fill_SdotA_rows t) = T t" "E (fill_SdotA_rows t) = E t"
  "S (fill_SdotA_rows t) = S t" "SdotA (fill_SdotA_rows t) = SdotA t"
  "cur_ce_len (fill_SdotA_rows t) = cur_ce_len t" "max_ce_len (fill_SdotA_rows t) = max_ce_len t"
  "dfa (fill_SdotA_rows t) = dfa t"
  by (simp_all add: fill_S_rows_def fill_SdotA_rows_def)


section \<open>What every operation preserves\<close>

text \<open>
  \<open>refines t t'\<close>: the table \<open>t'\<close> has the parameters and the search position of \<open>t\<close>,
  and its suffix list, cache and log of teacher calls extend those of \<open>t\<close>. It holds
  across every operation but the counterexample search, which moves the search position:
  there \<open>grows\<close> holds, the same with \<open>cur_ce_len\<close> allowed to rise.
\<close>

definition refines :: "ObservationTable \<Rightarrow> ObservationTable \<Rightarrow> bool" where
  "refines t t' \<longleftrightarrow>
     A t' = A t \<and> T t' = T t \<and> max_ce_len t' = max_ce_len t \<and>
     prefix (E t) (E t') \<and> length (queried t) \<le> length (queried t') \<and>
     prefix (asked t) (asked t') \<and> cur_ce_len t' = cur_ce_len t"

lemma refines_refl [simp]: "refines t t"
  by (simp add: refines_def)

lemma refines_trans: "refines t t1 \<Longrightarrow> refines t1 t2 \<Longrightarrow> refines t t2"
  by (auto simp: refines_def)

lemma refines_update [simp]:
  "refines t (t'\<lparr>S := xs\<rparr>) = refines t t'" "refines t (t'\<lparr>SdotA := xs\<rparr>) = refines t t'"
  "refines t (t'\<lparr>S_rows := r\<rparr>) = refines t t'" "refines t (t'\<lparr>SdotA_rows := r\<rparr>) = refines t t'"
  "refines t (t'\<lparr>dfa := m\<rparr>) = refines t t'"
  "refines (t\<lparr>S := xs\<rparr>) t' = refines t t'" "refines (t\<lparr>SdotA := xs\<rparr>) t' = refines t t'"
  "refines (t\<lparr>S_rows := r\<rparr>) t' = refines t t'" "refines (t\<lparr>SdotA_rows := r\<rparr>) t' = refines t t'"
  "refines (t\<lparr>dfa := m\<rparr>) t' = refines t t'"
  by (simp_all add: refines_def)

lemma set_rows_refines [simp]:
  "refines t (set_rows w r t') = refines t t'" "refines (set_rows w r t) t' = refines t t'"
  by (simp_all add: set_rows_def split: which_rows.splits)

lemma length_update_ge: "length al \<le> length (AList.update k v al)"
  by (induction al) auto

lemma query_refines: "refines t (snd (query s t))"
  by (simp add: query_def refines_def Let_def length_update_ge split: option.splits)

lemma query_all_refines: "refines t (snd (query_all s es t))"
proof (induction es arbitrary: t)
  case Nil
  show ?case by simp
next
  case (Cons e es)
  have "refines t (snd (query (s @ e) t))" by (rule query_refines)
  moreover have "refines (snd (query (s @ e) t)) (snd (query_all s es (snd (query (s @ e) t))))"
    by (rule Cons.IH)
  ultimately show ?case
    by (auto simp: Let_def split: prod.splits dest: refines_trans)
qed

lemma fill_row_refines: "refines t (fill_row s w t)"
proof -
  obtain row rows where d: "dd_get s (get_rows w t) = (row, rows)" by (cases "dd_get s (get_rows w t)")
  have "refines (set_rows w rows t)
          (snd (query_all s (drop (length row) (E (set_rows w rows t))) (set_rows w rows t)))"
    by (rule query_all_refines)
  then show ?thesis
    by (auto simp: fill_row_def d Let_def split: prod.splits)
qed

lemma fold_fill_row_refines: "refines t (fold (\<lambda>s. fill_row s w) xs t)"
proof (induction xs arbitrary: t)
  case Nil
  show ?case by simp
next
  case (Cons x xs)
  from fill_row_refines [of t x w] Cons.IH [of "fill_row x w t"] show ?case
    by (auto dest: refines_trans)
qed

lemma fill_rows_refines: "refines t (fill_S_rows t)" "refines t (fill_SdotA_rows t)"
  by (simp_all add: fill_S_rows_def fill_SdotA_rows_def fold_fill_row_refines)

lemma S_rows_get_eq: "snd (S_rows_get s t) = t\<lparr>S_rows := snd (dd_get s (S_rows t))\<rparr>"
  by (simp add: S_rows_get_def split: prod.splits)

lemma S_rows_get_refines: "refines t (snd (S_rows_get s t))"
  by (simp add: S_rows_get_eq)

lemma E_append_refines: "refines t (t\<lparr>E := E t @ [ae]\<rparr>)"
  by (simp add: refines_def)

lemma consistent_for_e_refines: "refines t (snd (consistent_for_e s1 s2 a es t))"
proof (induction es arbitrary: t)
  case Nil
  show ?case by simp
next
  case (Cons e es)
  let ?t1 = "snd (query (s1 @ a @ e) t)"
  let ?t2 = "snd (query (s2 @ a @ e) ?t1)"
  have 2: "refines t ?t2" using query_refines [of t] query_refines [of ?t1] by (blast intro: refines_trans)
  have 3: "refines ?t2 (fill_SdotA_rows (fill_S_rows (?t2\<lparr>E := E ?t2 @ [a @ e]\<rparr>)))"
    using E_append_refines [of ?t2] fill_rows_refines by (blast intro: refines_trans)
  from 2 3 Cons.IH [of ?t2] show ?case
    by (simp add: Let_def case_prod_beta) (blast intro: refines_trans)
qed

lemma consistent_for_a_refines: "refines t (snd (consistent_for_a s1 s2 as t))"
proof (induction as arbitrary: t)
  case Nil
  show ?case by simp
next
  case (Cons a as)
  from consistent_for_e_refines [of t s1 s2 a "E t"]
    Cons.IH [of "snd (consistent_for_e s1 s2 a (E t) t)"]
  show ?case by (simp add: Let_def case_prod_beta) (blast intro: refines_trans)
qed

lemma consistent_for_s2_refines: "refines t (snd (consistent_for_s2 s1 row1 ss t))"
proof (induction ss arbitrary: t)
  case Nil
  show ?case by simp
next
  case (Cons s2 ss)
  let ?t1 = "snd (S_rows_get s2 t)"
  let ?t2 = "snd (consistent_for_a s1 s2 (A ?t1) ?t1)"
  have 1: "refines t ?t1" by (rule S_rows_get_refines)
  have 2: "refines t ?t2" using 1 consistent_for_a_refines [of ?t1] by (blast intro: refines_trans)
  from 1 2 Cons.IH [of ?t1] Cons.IH [of ?t2] show ?case
    by (simp add: Let_def case_prod_beta) (blast intro: refines_trans)
qed

lemma consistent_for_s1_refines: "refines t (snd (consistent_for_s1 ss t))"
proof (induction ss arbitrary: t)
  case Nil
  show ?case by simp
next
  case (Cons s1 ss)
  let ?r = "S_rows_get s1 t"
  let ?t2 = "snd (consistent_for_s2 s1 (fst ?r) (S (snd ?r)) (snd ?r))"
  have 1: "refines t (snd ?r)" by (rule S_rows_get_refines)
  have 2: "refines t ?t2" using 1 consistent_for_s2_refines [of "snd ?r"] by (blast intro: refines_trans)
  from 2 Cons.IH [of ?t2] show ?case
    by (simp add: Let_def case_prod_beta) (blast intro: refines_trans)
qed

lemma make_more_consistent_refines: "refines t (snd (make_more_consistent t))"
  by (simp add: make_more_consistent_def consistent_for_s1_refines)

lemma add_extension_refines: "refines t (add_extension s a t)"
  using fill_row_refines [of "t\<lparr>SdotA := set_add (s @ a) (SdotA t)\<rparr>"]
  by (simp add: add_extension_def)

lemma fold_add_extension_refines: "refines t (fold (add_extension s) as t)"
proof (induction as arbitrary: t)
  case Nil
  show ?case by simp
next
  case (Cons a as)
  from add_extension_refines [of t s a] Cons.IH [of "add_extension s a t"] show ?case
    by (auto intro: refines_trans)
qed

lemma make_more_closed_refines:
  assumes "make_more_closed t = Inr (b, t')"
  shows "refines t t'"
proof (cases "find (\<lambda>(s, row). row \<notin> set (map snd (S_rows t))) (SdotA_rows t)")
  case None
  with assms show ?thesis by (simp add: make_more_closed_def)
next
  case (Some sr)
  obtain s row where sr: "sr = (s, row)" by (cases sr)
  let ?t1 = "fill_row s In_S_rows (t\<lparr>S := set_add s (S t)\<rparr>)"
  let ?t2 = "?t1\<lparr>SdotA := removeAll s (SdotA ?t1), SdotA_rows := AList.delete s (SdotA_rows ?t1)\<rparr>"
  have 1: "refines t ?t1" using fill_row_refines [of "t\<lparr>S := set_add s (S t)\<rparr>"] by simp
  have "refines ?t2 (fold (add_extension s) (A ?t2) ?t2)" by (rule fold_add_extension_refines)
  then have "refines ?t1 (fold (add_extension s) (A ?t2) ?t2)" by simp
  with 1 have "refines t (fold (add_extension s) (A ?t2) ?t2)" by (rule refines_trans)
  with assms Some sr show ?thesis
    by (auto simp: make_more_closed_def Let_def split: if_splits)
qed


lemma row_to_state_loop_table:
  "\<exists>r. snd (row_to_state_loop ss rts t) = t\<lparr>S_rows := r\<rparr>"
proof (induction ss arbitrary: rts t)
  case Nil
  have "t = t\<lparr>S_rows := S_rows t\<rparr>" by simp
  then show ?case by (metis row_to_state_loop.simps(1) snd_conv)
next
  case (Cons s ss)
  let ?t1 = "t\<lparr>S_rows := snd (dd_get s (S_rows t))\<rparr>"
  from Cons.IH [of _ ?t1] show ?case
    by (auto simp: Let_def case_prod_beta S_rows_get_eq)
qed

lemma make_row_to_state_map_table:
  "\<exists>r. snd (make_row_to_state_map t) = t\<lparr>S_rows := r\<rparr>"
  using row_to_state_loop_table [of _ _ "t\<lparr>S_rows := snd (dd_get [] (S_rows t))\<rparr>"]
  by (auto simp: make_row_to_state_map_def Let_def case_prod_beta S_rows_get_eq)

lemma to_dfa_table:
  assumes "to_dfa t = Inr (m, t')"
  shows "\<exists>r. t' = t\<lparr>S_rows := r\<rparr>"
proof -
  obtain r where r: "snd (make_row_to_state_map t) = t\<lparr>S_rows := r\<rparr>"
    using make_row_to_state_map_table by blast
  from assms have "t' = snd (S_rows_get [] (snd (make_row_to_state_map t)))"
    by (auto simp: to_dfa_def Let_def case_prod_beta split: option.splits sum.splits)
  then have "t' = t\<lparr>S_rows := snd (dd_get [] r)\<rparr>" by (simp add: r S_rows_get_eq)
  then show ?thesis by blast
qed

lemma to_dfa_refines: "to_dfa t = Inr (m, t') \<Longrightarrow> refines t t'"
  by (auto dest: to_dfa_table)

lemma test_words_calls:
  assumes "test_words m teacher ws calls = Inr (r, calls')"
  shows "\<exists>us. calls' = calls @ us \<and> set us \<subseteq> set ws \<and> (\<forall>w. r = Some w \<longrightarrow> w \<in> set ws)"
  using assms
proof (induction ws arbitrary: calls)
  case Nil
  then show ?case by simp
next
  case (Cons w ws)
  show ?case
  proof (cases "recognize m w")
    case (Inl e)
    with Cons.prems show ?thesis by simp
  next
    case (Inr pred)
    show ?thesis
    proof (cases "pred \<noteq> teacher w")
      case True
      with Inr Cons.prems show ?thesis by (auto simp: Let_def)
    next
      case False
      with Inr Cons.prems have "test_words m teacher ws (calls @ [w]) = Inr (r, calls')"
        by (simp add: Let_def)
      from Cons.IH [OF this] show ?thesis by auto
    qed
  qed
qed

definition tested_from :: "nat \<Rightarrow> str list \<Rightarrow> str list \<Rightarrow> bool" where
  "tested_from n alphabet ws \<longleftrightarrow>
     (\<forall>w \<in> set ws. \<exists>k. n \<le> k \<and> w \<in> set (all_words_of_length k alphabet))"

lemma search_loop_result:
  assumes "search_loop m t = Inr (r, t')"
  shows "\<exists>ws n. t' = t\<lparr>asked := asked t @ ws, cur_ce_len := n\<rparr> \<and> cur_ce_len t \<le> n \<and>
           tested_from (cur_ce_len t) (A t) ws \<and>
           (\<forall>w. r = Some w \<longrightarrow> w \<in> set (all_words_of_length n (A t)))"
  using assms
proof (induction m t rule: search_loop.induct)
  case (1 m t)
  show ?case
  proof (cases "int (cur_ce_len t) > max_ce_len t")
    case True
    with "1.prems" have "t' = t" "r = None" by (simp_all add: search_loop.simps [of m t])
    then have "t' = t\<lparr>asked := asked t @ [], cur_ce_len := cur_ce_len t\<rparr>" by simp
    with \<open>r = None\<close> show ?thesis unfolding tested_from_def
      by (intro exI [of _ "[]"] exI [of _ "cur_ce_len t"]) simp
  next
    case False
    let ?ws = "all_words_of_length (cur_ce_len t) (A t)"
    show ?thesis
    proof (cases "test_words m (T t) ?ws (asked t)")
      case (Inl e)
      with False "1.prems" show ?thesis by (simp add: search_loop.simps [of m t])
    next
      case (Inr res)
      obtain r1 calls where res: "res = (r1, calls)" by (cases res)
      from test_words_calls [OF Inr [unfolded res]] obtain us where
        us: "calls = asked t @ us" "set us \<subseteq> set ?ws" "\<forall>w. r1 = Some w \<longrightarrow> w \<in> set ?ws"
        by blast
      have tus: "tested_from (cur_ce_len t) (A t) us"
        using us(2) by (auto simp: tested_from_def)
      show ?thesis
      proof (cases r1)
        case (Some w)
        with False Inr res "1.prems" have "r = Some w" "t' = t\<lparr>asked := calls\<rparr>"
          by (simp_all add: search_loop.simps [of m t])
        then have "t' = t\<lparr>asked := asked t @ us, cur_ce_len := cur_ce_len t\<rparr>"
          by (simp add: us(1))
        with \<open>r = Some w\<close> Some us(3) tus show ?thesis
          by (intro exI [of _ us] exI [of _ "cur_ce_len t"]) simp
      next
        case None
        let ?t1 = "t\<lparr>asked := calls, cur_ce_len := cur_ce_len t + 1\<rparr>"
        from None False Inr res "1.prems" have "search_loop m ?t1 = Inr (r, t')"
          by (simp add: search_loop.simps [of m t])
        from "1.IH" [OF False Inr [unfolded res] _ None this] None obtain vs n where
          vs: "t' = ?t1\<lparr>asked := asked ?t1 @ vs, cur_ce_len := n\<rparr>" "cur_ce_len ?t1 \<le> n"
              "tested_from (cur_ce_len ?t1) (A ?t1) vs"
              "\<forall>w. r = Some w \<longrightarrow> w \<in> set (all_words_of_length n (A ?t1))"
          by auto
        have "t' = t\<lparr>asked := asked t @ (us @ vs), cur_ce_len := n\<rparr>"
          using vs(1) us(1) by simp
        moreover have "tested_from (cur_ce_len t) (A t) (us @ vs)"
          using tus vs(3) unfolding tested_from_def
          by (fastforce dest: Suc_leD)
        ultimately show ?thesis using vs(2,4)
          by (intro exI [of _ "us @ vs"] exI [of _ n]) simp
      qed
    qed
  qed
qed


definition grows :: "ObservationTable \<Rightarrow> ObservationTable \<Rightarrow> bool" where
  "grows t t' \<longleftrightarrow>
     A t' = A t \<and> T t' = T t \<and> max_ce_len t' = max_ce_len t \<and>
     prefix (E t) (E t') \<and> length (queried t) \<le> length (queried t') \<and>
     prefix (asked t) (asked t') \<and> cur_ce_len t \<le> cur_ce_len t'"

lemma refines_grows: "refines t t' \<Longrightarrow> grows t t'"
  by (simp add: refines_def grows_def)

lemma grows_refl [simp]: "grows t t"
  by (simp add: grows_def)

lemma grows_trans: "grows t t1 \<Longrightarrow> grows t1 t2 \<Longrightarrow> grows t t2"
  by (auto simp: grows_def)

lemma find_counterexample_result:
  assumes "find_counterexample t = Inr (r, t')"
  shows "\<exists>ws n rows m. t' = t\<lparr>S_rows := rows, dfa := Some m, asked := asked t @ ws, cur_ce_len := n\<rparr> \<and>
           cur_ce_len t \<le> n \<and> tested_from (cur_ce_len t) (A t) ws \<and>
           (\<forall>w. r = Some w \<longrightarrow> w \<in> set (all_words_of_length n (A t)))"
proof -
  from assms obtain m t1 where d: "to_dfa t = Inr (m, t1)"
    and s: "search_loop m (t1\<lparr>dfa := Some m\<rparr>) = Inr (r, t')"
    by (auto simp: find_counterexample_def split: sum.splits)
  from to_dfa_table [OF d] obtain rows where t1: "t1 = t\<lparr>S_rows := rows\<rparr>" by blast
  from search_loop_result [OF s] obtain ws n where
    "t' = t1\<lparr>dfa := Some m\<rparr>\<lparr>asked := asked (t1\<lparr>dfa := Some m\<rparr>) @ ws, cur_ce_len := n\<rparr>"
    "cur_ce_len (t1\<lparr>dfa := Some m\<rparr>) \<le> n"
    "tested_from (cur_ce_len (t1\<lparr>dfa := Some m\<rparr>)) (A (t1\<lparr>dfa := Some m\<rparr>)) ws"
    "\<forall>w. r = Some w \<longrightarrow> w \<in> set (all_words_of_length n (A (t1\<lparr>dfa := Some m\<rparr>)))"
    by blast
  then show ?thesis unfolding t1
    by (intro exI [of _ ws] exI [of _ n] exI [of _ rows] exI [of _ m]) simp
qed

lemma find_counterexample_grows:
  assumes "find_counterexample t = Inr (r, t')"
  shows "grows t t'"
  using find_counterexample_result [OF assms] by (auto simp: grows_def)

lemma add_extension_unless_in_S_refines: "refines t (add_extension_unless_in_S s a t)"
  by (simp add: add_extension_unless_in_S_def Let_def add_extension_refines)

lemma fold_add_extension_unless_in_S_refines:
  "refines t (fold (add_extension_unless_in_S s) as t)"
proof (induction as arbitrary: t)
  case Nil
  show ?case by simp
next
  case (Cons a as)
  from add_extension_unless_in_S_refines [of t s a]
    Cons.IH [of "add_extension_unless_in_S s a t"]
  show ?case by (auto intro: refines_trans)
qed

lemma discard_from_SdotA_refines: "discard_from_SdotA p t = Inr t' \<Longrightarrow> refines t t'"
  by (auto simp: discard_from_SdotA_def split: if_splits)

lemma resolve_prefix_refines:
  assumes "resolve_prefix p t = Inr t'"
  shows "refines t t'"
proof (cases "p \<in> set (S t)")
  case True
  with assms show ?thesis by (simp add: resolve_prefix_def)
next
  case False
  let ?t1 = "fill_row p In_S_rows (t\<lparr>S := set_add p (S t)\<rparr>)"
  have 1: "refines t ?t1" using fill_row_refines [of "t\<lparr>S := set_add p (S t)\<rparr>"] by simp
  from False assms obtain t2 where t2: "discard_from_SdotA p ?t1 = Inr t2"
    and t': "t' = fold (add_extension_unless_in_S p) (A t2) t2"
    by (auto simp: resolve_prefix_def split: sum.splits)
  from 1 discard_from_SdotA_refines [OF t2] have "refines t t2" by (rule refines_trans)
  with fold_add_extension_unless_in_S_refines [of t2] show ?thesis
    unfolding t' by (blast intro: refines_trans)
qed

lemma resolve_loop_refines: "resolve_loop ps t = Inr t' \<Longrightarrow> refines t t'"
proof (induction ps arbitrary: t)
  case Nil
  then show ?case by simp
next
  case (Cons p ps)
  then obtain t1 where 1: "resolve_prefix p t = Inr t1" and 2: "resolve_loop ps t1 = Inr t'"
    by (auto split: sum.splits)
  from resolve_prefix_refines [OF 1] Cons.IH [OF 2] show ?case by (rule refines_trans)
qed

lemma resolve_counterexample_refines: "resolve_counterexample ce t = Inr t' \<Longrightarrow> refines t t'"
  unfolding resolve_counterexample_def by (rule resolve_loop_refines)

lemma perform_refines:
  assumes "perform x t = Inr t'" and "x \<noteq> Find_counterexample"
  shows "refines t t'"
proof (cases x)
  case Make_more_consistent
  with assms make_more_consistent_refines [of t] show ?thesis by auto
next
  case Make_more_closed
  with assms show ?thesis by (auto split: sum.splits dest: make_more_closed_refines)
next
  case Find_counterexample
  with assms show ?thesis by simp
next
  case (Resolve_counterexample ce)
  with assms show ?thesis by (auto dest: resolve_counterexample_refines)
qed

lemma perform_grows:
  assumes "perform x t = Inr t'"
  shows "grows t t'"
proof (cases "x = Find_counterexample")
  case True
  with assms show ?thesis by (auto split: sum.splits dest: find_counterexample_grows)
next
  case False
  with assms show ?thesis by (blast intro: refines_grows perform_refines)
qed

lemma perform_all_grows: "perform_all xs t = Inr t' \<Longrightarrow> grows t t'"
proof (induction xs arbitrary: t)
  case Nil
  then show ?case by simp
next
  case (Cons x xs)
  then obtain t1 where 1: "perform x t = Inr t1" and 2: "perform_all xs t1 = Inr t'"
    by (auto split: sum.splits)
  from perform_grows [OF 1] Cons.IH [OF 2] show ?case by (rule grows_trans)
qed

lemma perform_all_refines:
  "perform_all xs t = Inr t' \<Longrightarrow> Find_counterexample \<notin> set xs \<Longrightarrow> refines t t'"
proof (induction xs arbitrary: t)
  case Nil
  then show ?case by simp
next
  case (Cons x xs)
  then obtain t1 where 1: "perform x t = Inr t1" and 2: "perform_all xs t1 = Inr t'"
    by (auto split: sum.splits)
  from Cons.prems have "x \<noteq> Find_counterexample" "Find_counterexample \<notin> set xs" by auto
  with perform_refines [OF 1] Cons.IH [OF 2] show ?case by (blast intro: refines_trans)
qed

lemma init_result:
  assumes "init alphabet teacher cap m = Inr t"
  shows "E t = [[]] \<and> cur_ce_len t = 2 \<and> A t = alphabet \<and> T t = teacher"
  using assms by (auto simp: init_def Let_def split: sum.splits)


section \<open>The counterexample length bound\<close>

lemma init_single_symbol: "length alphabet = 1 \<Longrightarrow> init alphabet teacher cap b = Inl NameError"
  by (simp add: init_def get_max_ce_len_def Let_def)


text \<open>
  C3. The claim describes a run on the one-symbol alphabet \<open>{a}\<close> with default
  parameters that returns a three-state automaton. The constructor never returns on a
  one-symbol alphabet: \<open>__get_max_ce_len\<close> takes its first branch and evaluates the
  unbound name \<open>max_ce_iters\<close>, so \<open>lstar\<close> ends with \<open>NameError\<close> before any
  automaton is built.
\<close>

theorem lstar_single_symbol:
  "lstar [str_of ''a''] multiple_of_3 None 100000 = Some (Inl NameError)"
  by (simp add: lstar_def init_single_symbol)


text \<open>
  What is known of the doubles: both stand-ins exist, the exact logarithm and the
  identity being within the distance.
\<close>

lemma math_log_close:
  assumes "1 \<le> x" and "2 \<le> b"
  shows "\<bar>math_log x b - log b x\<bar> \<le> 1 / 10 ^ 9"
proof -
  have "close_to_log (\<lambda>x b. log b x)" by (simp add: close_to_log_def)
  then have "close_to_log math_log" unfolding math_log_def by (rule someI [of close_to_log])
  with assms show ?thesis unfolding close_to_log_def by blast
qed

lemma double_close:
  assumes "\<bar>x\<bar> \<le> 2 ^ 20"
  shows "\<bar>double x - x\<bar> \<le> 1 / 10 ^ 9"
proof -
  have "close_to_exact (\<lambda>x. x)" by (simp add: close_to_exact_def)
  then have "close_to_exact double" unfolding double_def by (rule someI [of close_to_exact])
  with assms show ?thesis unfolding close_to_exact_def by blast
qed

lemma powr_rat:
  fixes b :: real
  assumes "1 < b" and "0 < q"
  shows "(b powr (real p / real q)) ^ q = b ^ p"
proof -
  have "(b powr (real p / real q)) ^ q = b powr (of_nat q * (real p / real q))"
    using assms by (subst powr_power) auto
  also have "of_nat q * (real p / real q) = real p" using assms by simp
  also have "b powr real p = b ^ p" using assms by (simp only: powr_realpow)
  finally show ?thesis .
qed

lemma log_ge_rat:
  fixes a b :: real
  assumes "1 < b" and "0 < a" and "0 < q"
  shows "real p / real q \<le> log b a \<longleftrightarrow> b ^ p \<le> a ^ q"
proof -
  have "real p / real q \<le> log b a \<longleftrightarrow> b powr (real p / real q) \<le> a"
    using assms by (intro le_log_iff) auto
  also have "\<dots> \<longleftrightarrow> (b powr (real p / real q)) ^ q \<le> a ^ q"
    using assms by (simp add: power_mono_iff)
  also have "\<dots> \<longleftrightarrow> b ^ p \<le> a ^ q"
    using assms by (simp only: powr_rat)
  finally show ?thesis .
qed

lemma log_le_rat:
  fixes a b :: real
  assumes "1 < b" and "0 < a" and "0 < q"
  shows "log b a \<le> real p / real q \<longleftrightarrow> a ^ q \<le> b ^ p"
proof -
  have "log b a \<le> real p / real q \<longleftrightarrow> a \<le> b powr (real p / real q)"
    using assms by (intro log_le_iff) auto
  also have "\<dots> \<longleftrightarrow> a ^ q \<le> (b powr (real p / real q)) ^ q"
    using assms by (simp add: power_mono_iff)
  also have "\<dots> \<longleftrightarrow> a ^ q \<le> b ^ p"
    using assms by (simp only: powr_rat)
  finally show ?thesis .
qed

text \<open>
  The doubles of the rounding rule when the real number \<open>log b a - 1\<close> is away from the
  thresholds \<open>n\<close>, \<open>n + 0.8\<close> and \<open>n + 1\<close>: then every logarithm and rounding within the
  distance give the same bound. The position of the real number is read off integer
  powers.
\<close>

lemma doubles_between:
  fixes lo hi :: real
  assumes n: "n \<le> 1000" and b: "2 \<le> b" and a: "1 \<le> a"
    and lo: "real n + lo \<le> log b a - 1" and hi: "log b a - 1 \<le> real n + hi"
    and l: "1 / 10 \<le> lo" and h: "hi \<le> 19 / 20"
  shows "\<bar>double (math_log a b - 1) - (log b a - 1)\<bar> \<le> 2 / 10 ^ 9"
    and "py_int (double (math_log a b - 1)) = int n"
    and "\<bar>double (real_of_int (py_int (double (math_log a b - 1))) + double (4 / 5)) - (real n + 4 / 5)\<bar>
           \<le> 2 / 10 ^ 9"
proof -
  let ?v = "double (math_log a b - 1)"
  have e: "(1::real) / 10 ^ 9 \<le> 1 / 100" "(2::real) / 10 ^ 9 = 1 / 10 ^ 9 + 1 / 10 ^ 9"
    and p: "(1001::real) \<le> 2 ^ 20" by simp_all
  have rn: "real n \<le> 1000" "0 \<le> real n" using n by simp_all
  have 1: "\<bar>math_log a b - log b a\<bar> \<le> 1 / 10 ^ 9" using a b by (rule math_log_close)
  have "\<bar>math_log a b - 1\<bar> \<le> 1001" using 1 lo hi rn l h e(1) by linarith
  then have "\<bar>math_log a b - 1\<bar> \<le> 2 ^ 20" using p by (rule order_trans)
  then have 2: "\<bar>?v - (math_log a b - 1)\<bar> \<le> 1 / 10 ^ 9" by (rule double_close)
  from 1 2 show 3: "\<bar>?v - (log b a - 1)\<bar> \<le> 2 / 10 ^ 9" unfolding e(2) by linarith
  have "real n \<le> ?v" "?v < real n + 1" using 1 2 lo hi l h e(1) by linarith+
  then have "\<lfloor>?v\<rfloor> = int n" "0 \<le> ?v" by (auto intro!: floor_unique)
  then show 4: "py_int ?v = int n" by (simp add: py_int_def)
  have "\<bar>4 / 5 :: real\<bar> \<le> 2 ^ 20" by simp
  then have 5: "\<bar>double (4 / 5) - 4 / 5\<bar> \<le> 1 / 10 ^ 9" by (rule double_close)
  have "\<bar>real n + double (4 / 5)\<bar> \<le> 1001" using 5 rn e(1) by linarith
  then have "\<bar>real n + double (4 / 5)\<bar> \<le> 2 ^ 20" using p by (rule order_trans)
  then have "\<bar>double (real n + double (4 / 5)) - (real n + double (4 / 5))\<bar> \<le> 1 / 10 ^ 9"
    by (rule double_close)
  with 5 have "\<bar>double (real n + double (4 / 5)) - (real n + 4 / 5)\<bar> \<le> 2 / 10 ^ 9"
    unfolding e(2) by linarith
  then show "\<bar>double (real_of_int (py_int ?v) + double (4 / 5)) - (real n + 4 / 5)\<bar> \<le> 2 / 10 ^ 9"
    by (simp only: 4 of_int_of_nat_eq)
qed

lemma get_max_ce_len_floor:
  assumes k: "2 \<le> length (A t)" and a: "1 \<le> a_2_n_plus_1 (length (A t)) m" and n: "n \<le> 1000"
    and lo: "real (length (A t)) ^ (10 * n + 11) \<le> a_2_n_plus_1 (length (A t)) m ^ 10"
    and hi: "a_2_n_plus_1 (length (A t)) m ^ 10 \<le> real (length (A t)) ^ (10 * n + 17)"
  shows "get_max_ce_len t m = Inr (int n)"
proof -
  let ?b = "real (length (A t))" and ?a = "a_2_n_plus_1 (length (A t)) m"
  let ?v = "double (math_log ?a ?b - 1)"
  have b: "2 \<le> ?b" "1 < ?b" and a0: "0 < ?a" using k a by simp_all
  have e: "(2::real) / 10 ^ 9 \<le> 1 / 100" by simp
  have "real (10 * n + 11) / real 10 \<le> log ?b ?a"
    using lo log_ge_rat [OF b(2) a0, of 10 "10 * n + 11"] by simp
  then have 1: "real n + 1 / 10 \<le> log ?b ?a - 1" by simp
  have "log ?b ?a \<le> real (10 * n + 17) / real 10"
    using hi log_le_rat [OF b(2) a0, of 10 "10 * n + 17"] by simp
  then have 2: "log ?b ?a - 1 \<le> real n + 7 / 10" by simp
  note d = doubles_between [OF n b(1) a 1 2]
  have "?v < double (real_of_int (py_int ?v) + double (4 / 5))"
    using d(1) d(3) 2 e by linarith
  then have "\<not> double (real_of_int (py_int ?v) + double (4 / 5)) \<le> ?v" by simp
  with d(2) show ?thesis using k a0 by (auto simp add: get_max_ce_len_def Let_def)
qed

lemma get_max_ce_len_round_up:
  assumes k: "2 \<le> length (A t)" and a: "1 \<le> a_2_n_plus_1 (length (A t)) m" and n: "n \<le> 1000"
    and lo: "real (length (A t)) ^ (20 * n + 37) \<le> a_2_n_plus_1 (length (A t)) m ^ 20"
    and hi: "a_2_n_plus_1 (length (A t)) m ^ 20 \<le> real (length (A t)) ^ (20 * n + 39)"
  shows "get_max_ce_len t m = Inr (int n + 1)"
proof -
  let ?b = "real (length (A t))" and ?a = "a_2_n_plus_1 (length (A t)) m"
  let ?v = "double (math_log ?a ?b - 1)"
  have b: "2 \<le> ?b" "1 < ?b" and a0: "0 < ?a" using k a by simp_all
  have e: "(2::real) / 10 ^ 9 \<le> 1 / 100" by simp
  have "real (20 * n + 37) / real 20 \<le> log ?b ?a"
    using lo log_ge_rat [OF b(2) a0, of 20 "20 * n + 37"] by simp
  then have 1: "real n + 17 / 20 \<le> log ?b ?a - 1" by simp
  have "log ?b ?a \<le> real (20 * n + 39) / real 20"
    using hi log_le_rat [OF b(2) a0, of 20 "20 * n + 39"] by simp
  then have 2: "log ?b ?a - 1 \<le> real n + 19 / 20" by simp
  note d = doubles_between [OF n b(1) a 1 2]
  have "double (real_of_int (py_int ?v) + double (4 / 5)) \<le> ?v"
    using d(1) d(3) 1 e by linarith
  with d(2) show ?thesis using k a0 by (auto simp add: get_max_ce_len_def Let_def)
qed


text \<open>
  C6. The claim says that the words of lengths 2 to \<open>n\<close> never outnumber the budget.
  With two symbols and a budget of 26 the code computes \<open>log(30, 2) - 1\<close>, about 3.907
  (\<open>2\<^sup>9\<^sup>7 \<le> 30\<^sup>2\<^sup>0 \<le> 2\<^sup>9\<^sup>9\<close> puts the real number between 3.85 and 3.95), and because the
  fractional part is at least 0.8 it rounds the bound up to 4; the words of lengths 2
  to 4 number 28, more than the budget. The docstrings promise the budget
  (\<open>max_ce_searches\<close> is the \<open>maximum num of searches for counterexamples\<close>, and the
  search space \<open>should not exceed the preset maximum number of iterations\<close>).
\<close>

theorem get_max_ce_len_over_budget:
  "get_max_ce_len (new_table ab reject_all) 26 = Inr 4 \<and>
   (\<Sum>x = 2..nat 4. real (length ab) ^ x) > 26"
proof -
  have "get_max_ce_len (new_table ab reject_all) 26 = Inr (int 3 + 1)"
    by (rule get_max_ce_len_round_up) (simp_all add: new_table_def ab_def a_2_n_plus_1_def)
  moreover have "{2..nat 4} = {2, 3, 4::nat}" by auto
  ultimately show ?thesis by (simp add: ab_def)
qed


section \<open>Evaluating runs on two symbols\<close>

text \<open>
  With two symbols and the default budget of 100000 the constructor computes
  \<open>log(100004, 2) - 1\<close>, about 15.61 (\<open>2\<^sup>1\<^sup>6\<^sup>1 \<le> 100004\<^sup>1\<^sup>0 \<le> 2\<^sup>1\<^sup>6\<^sup>7\<close> puts the real number
  between 15.1 and 15.7), so the bound is 15 unless a smaller cap is given.
\<close>

lemma init_two_symbols:
  assumes "length alphabet = 2"
  shows "init alphabet teacher cap 100000 =
     Inr ((fill_SdotA_rows (fill_S_rows (new_table alphabet teacher)))
            \<lparr>max_ce_len := (case cap of None \<Rightarrow> 15 | Some k \<Rightarrow> if k \<noteq> 0 \<and> k < 15 then k else 15)\<rparr>)"
proof -
  have "get_max_ce_len (fill_SdotA_rows (fill_S_rows (new_table alphabet teacher))) 100000 = Inr (int 15)"
    by (rule get_max_ce_len_floor) (simp_all add: assms a_2_n_plus_1_def)
  then show ?thesis by (simp add: init_def)
qed

lemma length_ab: "length ab = 2"
  by (simp add: ab_def)

lemma returned: "\<not> isl r \<Longrightarrow> \<exists>t. r = Inr t"
  by (cases r) simp_all

lemma all_words_length:
  assumes "\<forall>a \<in> set alphabet. length a = 1"
  shows "w \<in> set (all_words_of_length k alphabet) \<Longrightarrow> length w = k"
  using assms by (induction k arbitrary: w) auto

lemma learning_run_grows:
  assumes "learning_run alphabet teacher cap m xs = Inr t"
  shows "\<exists>t0. init alphabet teacher cap m = Inr t0 \<and> grows t0 t"
  using assms by (auto simp: learning_run_def split: sum.splits dest: perform_all_grows)

lemma update_new: "map_of al k = None \<Longrightarrow> AList.update k v al = al @ [(k, v)]"
  by (induction al) (auto split: if_splits)


section \<open>The suffix list\<close>

text \<open>
  C9. The constructor sets \<open>E\<close> to the list holding the empty suffix; every public
  operation leaves a list of which the old \<open>E\<close> is a prefix (so nothing is removed or
  reordered); and after any run of operations from construction \<open>E\<close> holds the empty
  suffix.
\<close>

theorem E_only_appended:
  "(init alphabet teacher cap m = Inr t0 \<longrightarrow> E t0 = [[]]) \<and>
   (perform x t = Inr t' \<longrightarrow> prefix (E t) (E t')) \<and>
   (learning_run alphabet teacher cap m xs = Inr t \<longrightarrow> [] \<in> set (E t))"
proof (intro conjI impI)
  assume "init alphabet teacher cap m = Inr t0"
  then show "E t0 = [[]]" by (simp add: init_result)
next
  assume "perform x t = Inr t'"
  then have "grows t t'" by (rule perform_grows)
  then show "prefix (E t) (E t')" by (simp add: grows_def)
next
  assume "learning_run alphabet teacher cap m xs = Inr t"
  then obtain t0 where "init alphabet teacher cap m = Inr t0" and "grows t0 t"
    using learning_run_grows by blast
  then have "prefix [[]] (E t)" by (simp add: init_result grows_def)
  then show "[] \<in> set (E t)" by (auto simp: prefix_def)
qed

lemma only_aa_run_returns:
  "\<not> isl (learning_run ab only_aa None 100000
            [Make_more_consistent, Make_more_closed, Find_counterexample,
             Resolve_counterexample (str_of ''aa'')])"
  unfolding learning_run_def init_two_symbols [OF length_ab] sum.case option.case
  by code_simp

theorem E_only_appended_witness:
  "\<exists>t t'. learning_run ab only_aa None 100000
            [Make_more_consistent, Make_more_closed, Find_counterexample,
             Resolve_counterexample (str_of ''aa'')] = Inr t \<and>
          perform Make_more_consistent t = Inr t' \<and>
          [] \<in> set (E t) \<and> prefix (E t) (E t')"
proof -
  from only_aa_run_returns obtain t where
    t: "learning_run ab only_aa None 100000
            [Make_more_consistent, Make_more_closed, Find_counterexample,
             Resolve_counterexample (str_of ''aa'')] = Inr t"
    using returned by blast
  obtain t' where t': "perform Make_more_consistent t = Inr t'" by simp
  from E_only_appended [where alphabet = ab and teacher = only_aa and cap = None
      and m = 100000 and x = Make_more_consistent and t = t and t' = t'
      and xs = "[Make_more_consistent, Make_more_closed, Find_counterexample,
        Resolve_counterexample (str_of ''aa'')]"] t t'
  show ?thesis by blast
qed


section \<open>The query cache\<close>

text \<open>
  C4 (as stated). The claim says that no string is asked to the teacher twice in a run.
  \<open>find_counterexample\<close> calls the teacher directly. When the teacher accepts only
  \<open>aa\<close>, the first search asks it about \<open>aa\<close>, finds the counterexample, and
  \<open>resolve_counterexample\<close> then queries \<open>aa\<close> through the cache, which has never
  seen it: the teacher is called on \<open>aa\<close> twice.
\<close>

theorem oracle_asked_twice:
  "oracle_calls
     (learning_run ab only_aa None 100000
        [Make_more_consistent, Make_more_closed, Find_counterexample,
         Resolve_counterexample (str_of ''aa'')]) =
   [[], str_of ''a'', str_of ''b'', str_of ''aa'', str_of ''aa'', str_of ''aaa'',
    str_of ''aab'', str_of ''ab''] \<and>
   \<not> distinct (oracle_calls
     (learning_run ab only_aa None 100000
        [Make_more_consistent, Make_more_closed, Find_counterexample,
         Resolve_counterexample (str_of ''aa'')]))"
proof -
  have "oracle_calls
     (learning_run ab only_aa None 100000
        [Make_more_consistent, Make_more_closed, Find_counterexample,
         Resolve_counterexample (str_of ''aa'')]) =
   [[], str_of ''a'', str_of ''b'', str_of ''aa'', str_of ''aa'', str_of ''aaa'',
    str_of ''aab'', str_of ''ab'']"
    unfolding learning_run_def init_two_symbols [OF length_ab] sum.case option.case
    by code_simp
  then show ?thesis by simp
qed


text \<open>
  C4 (amended). Through \<open>_query\<close> the cache holds: a query for a cached string returns
  the cached answer and leaves the table, and so the log of teacher calls, as it is; a
  query for a new string calls the teacher once and stores the answer; no operation
  lowers \<open>get_num_of_queries\<close>. The counterexample search neither reads nor fills the
  cache.
\<close>

theorem cache_answers_repeated_queries:
  "(map_of (queried t) s = Some v \<longrightarrow> query s t = (v, t)) \<and>
   (map_of (queried t) s = None \<longrightarrow>
      query s t = (T t s, t\<lparr>queried := queried t @ [(s, T t s)], asked := asked t @ [s]\<rparr>)) \<and>
   (perform x t = Inr t' \<longrightarrow> get_num_of_queries t \<le> get_num_of_queries t') \<and>
   (find_counterexample t = Inr (r, t') \<longrightarrow> queried t' = queried t)"
proof (intro conjI impI)
  assume "map_of (queried t) s = Some v"
  then show "query s t = (v, t)" by (simp add: query_def)
next
  assume "map_of (queried t) s = None"
  then show "query s t = (T t s, t\<lparr>queried := queried t @ [(s, T t s)], asked := asked t @ [s]\<rparr>)"
    by (simp add: query_def update_new Let_def)
next
  assume "perform x t = Inr t'"
  then have "grows t t'" by (rule perform_grows)
  then show "get_num_of_queries t \<le> get_num_of_queries t'"
    by (simp add: grows_def get_num_of_queries_def)
next
  assume "find_counterexample t = Inr (r, t')"
  from find_counterexample_result [OF this] show "queried t' = queried t" by auto
qed


lemma only_aa_cached:
  "map_of (queried (fill_SdotA_rows (fill_S_rows (new_table ab only_aa))\<lparr>max_ce_len := 15\<rparr>))
     (str_of ''a'') = Some False"
  "map_of (queried (fill_SdotA_rows (fill_S_rows (new_table ab only_aa))\<lparr>max_ce_len := 15\<rparr>))
     (str_of ''aa'') = None"
  "map_sum id fst (find_counterexample (fill_SdotA_rows (fill_S_rows (new_table ab only_aa))\<lparr>max_ce_len := 15\<rparr>))
     = Inr (Some (str_of ''aa''))"
  by code_simp+

theorem cache_answers_repeated_queries_witness:
  "\<exists>t t'. init ab only_aa None 100000 = Inr t \<and>
     query (str_of ''a'') t = (False, t) \<and>
     asked (snd (query (str_of ''aa'') t)) = asked t @ [str_of ''aa''] \<and>
     find_counterexample t = Inr (Some (str_of ''aa''), t') \<and>
     get_num_of_queries t \<le> get_num_of_queries t' \<and> queried t' = queried t"
proof -
  let ?t = "fill_SdotA_rows (fill_S_rows (new_table ab only_aa))\<lparr>max_ce_len := 15\<rparr>"
  have i: "init ab only_aa None 100000 = Inr ?t"
    by (simp add: init_two_symbols [OF length_ab])
  from only_aa_cached(3) obtain t' where f: "find_counterexample ?t = Inr (Some (str_of ''aa''), t')"
    by (cases "find_counterexample ?t") auto
  then have p: "perform Find_counterexample ?t = Inr t'" by simp
  note th1 = cache_answers_repeated_queries [where t = ?t and s = "str_of ''a''" and v = False
      and x = Find_counterexample and t' = t' and r = "Some (str_of ''aa'')"]
  note th2 = cache_answers_repeated_queries [where t = ?t and s = "str_of ''aa''"]
  have 1: "query (str_of ''a'') ?t = (False, ?t)"
    using th1 only_aa_cached(1) by blast
  have "query (str_of ''aa'') ?t =
      (T ?t (str_of ''aa''), ?t\<lparr>queried := queried ?t @ [(str_of ''aa'', T ?t (str_of ''aa''))],
                                 asked := asked ?t @ [str_of ''aa'']\<rparr>)"
    using th2 only_aa_cached(2) by blast
  then have 2: "asked (snd (query (str_of ''aa'') ?t)) = asked ?t @ [str_of ''aa'']"
    by simp
  have 3: "get_num_of_queries ?t \<le> get_num_of_queries t'"
    using th1 p by blast
  have 4: "queried t' = queried ?t"
    using th1 f by blast
  from i f 1 2 3 4 show ?thesis by blast
qed


section \<open>The search position\<close>

text \<open>
  C10. \<open>cur_ce_len\<close> is 2 after construction and no operation lowers it. When a search
  has returned a counterexample \<open>ce\<close>, and any operations other than a search have
  followed, the search position is still the length of \<open>ce\<close>, and every word the next
  search tests is at least that long: no word of a length from 2 to \<open>len(ce) - 1\<close> is
  tested against the new automaton. (Alphabet symbols are single characters.)
\<close>

theorem search_position_persists:
  "(init alphabet teacher cap m = Inr t0 \<longrightarrow> cur_ce_len t0 = 2) \<and>
   (perform x t = Inr t' \<longrightarrow> cur_ce_len t \<le> cur_ce_len t') \<and>
   ((\<forall>a \<in> set (A t). length a = 1) \<and> find_counterexample t = Inr (Some ce, t1) \<and>
      perform_all xs t1 = Inr t2 \<and> Find_counterexample \<notin> set xs \<and>
      find_counterexample t2 = Inr (r, t3)
    \<longrightarrow> cur_ce_len t2 = length ce \<and>
        (\<exists>ws. asked t3 = asked t2 @ ws \<and> (\<forall>w \<in> set ws. length ce \<le> length w)))"
proof (intro conjI impI)
  assume "init alphabet teacher cap m = Inr t0"
  then show "cur_ce_len t0 = 2" by (simp add: init_result)
next
  assume "perform x t = Inr t'"
  then have "grows t t'" by (rule perform_grows)
  then show "cur_ce_len t \<le> cur_ce_len t'" by (simp add: grows_def)
next
  assume h: "(\<forall>a \<in> set (A t). length a = 1) \<and> find_counterexample t = Inr (Some ce, t1) \<and>
      perform_all xs t1 = Inr t2 \<and> Find_counterexample \<notin> set xs \<and>
      find_counterexample t2 = Inr (r, t3)"
  then have sym: "\<forall>a \<in> set (A t). length a = 1" by blast
  from h find_counterexample_result [of t "Some ce" t1] obtain n where
    n: "cur_ce_len t1 = n" "A t1 = A t" "ce \<in> set (all_words_of_length n (A t))"
    by auto
  from all_words_length [OF sym n(3)] n(1) have 1: "cur_ce_len t1 = length ce" by simp
  from h have "refines t1 t2" by (blast intro: perform_all_refines)
  then have 2: "cur_ce_len t2 = cur_ce_len t1" "A t2 = A t1" by (simp_all add: refines_def)
  from h find_counterexample_result [of t2 r t3] obtain ws where
    ws: "asked t3 = asked t2 @ ws" "tested_from (cur_ce_len t2) (A t2) ws" by auto
  have "\<forall>w \<in> set ws. length ce \<le> length w"
  proof
    fix w assume "w \<in> set ws"
    with ws(2) obtain k where "cur_ce_len t2 \<le> k" "w \<in> set (all_words_of_length k (A t2))"
      by (auto simp: tested_from_def)
    with all_words_length [of "A t" w k] sym 1 2 n(2) show "length ce \<le> length w" by simp
  qed
  with ws(1) 1 2 show "cur_ce_len t2 = length ce" and
    "\<exists>ws. asked t3 = asked t2 @ ws \<and> (\<forall>w \<in> set ws. length ce \<le> length w)" by auto
qed

lemma only_aa_second_search:
  "map_sum id fst (find_counterexample (fill_SdotA_rows (fill_S_rows (new_table ab only_aa))\<lparr>max_ce_len := 2\<rparr>))
     = Inr (Some (str_of ''aa''))"
  "\<not> isl (perform_all
     [Resolve_counterexample (str_of ''aa''), Make_more_consistent, Make_more_consistent,
      Make_more_closed]
     (snd (projr (find_counterexample
        (fill_SdotA_rows (fill_S_rows (new_table ab only_aa))\<lparr>max_ce_len := 2\<rparr>)))))"
  "\<not> isl (find_counterexample (projr (perform_all
     [Resolve_counterexample (str_of ''aa''), Make_more_consistent, Make_more_consistent,
      Make_more_closed]
     (snd (projr (find_counterexample
        (fill_SdotA_rows (fill_S_rows (new_table ab only_aa))\<lparr>max_ce_len := 2\<rparr>)))))))"
  by code_simp+

theorem search_position_persists_witness:
  "\<exists>t t1 t2 t3 r.
     init ab only_aa (Some 2) 100000 = Inr t \<and>
     find_counterexample t = Inr (Some (str_of ''aa''), t1) \<and>
     perform_all [Resolve_counterexample (str_of ''aa''), Make_more_consistent,
                  Make_more_consistent, Make_more_closed] t1 = Inr t2 \<and>
     find_counterexample t2 = Inr (r, t3) \<and>
     cur_ce_len t = 2 \<and> cur_ce_len t2 = 2 \<and>
     (\<exists>ws. asked t3 = asked t2 @ ws \<and> list_all (\<lambda>w. 2 \<le> length w) ws)"
proof -
  let ?t = "fill_SdotA_rows (fill_S_rows (new_table ab only_aa))\<lparr>max_ce_len := 2\<rparr>"
  let ?xs = "[Resolve_counterexample (str_of ''aa''), Make_more_consistent,
              Make_more_consistent, Make_more_closed]"
  have i: "init ab only_aa (Some 2) 100000 = Inr ?t"
    by (simp add: init_two_symbols [OF length_ab])
  from only_aa_second_search(1) obtain t1 where
    f1: "find_counterexample ?t = Inr (Some (str_of ''aa''), t1)"
    by (cases "find_counterexample ?t") auto
  then have t1: "snd (projr (find_counterexample ?t)) = t1" by simp
  from only_aa_second_search(2) obtain t2 where p: "perform_all ?xs t1 = Inr t2"
    unfolding t1 using returned by blast
  from only_aa_second_search(3) obtain r t3 where f2: "find_counterexample t2 = Inr (r, t3)"
    unfolding t1 p using returned by fastforce
  have sym: "\<forall>a \<in> set (A ?t). length a = 1" by (simp add: ab_def str_of_def)
  have nf: "Find_counterexample \<notin> set ?xs" by simp
  from search_position_persists [where alphabet = ab and teacher = only_aa and cap = "Some 2"
      and m = 100000 and ?t0.0 = ?t and t = ?t and ce = "str_of ''aa''" and ?t1.0 = t1
      and xs = ?xs and ?t2.0 = t2 and r = r and ?t3.0 = t3] i sym f1 p nf f2
  have "cur_ce_len ?t = 2" "cur_ce_len t2 = length (str_of ''aa'')"
    "\<exists>ws. asked t3 = asked t2 @ ws \<and> (\<forall>w \<in> set ws. length (str_of ''aa'') \<le> length w)"
    by blast+
  moreover have "length (str_of ''aa'') = 2" by (simp add: str_of_def)
  ultimately have "cur_ce_len ?t = 2" "cur_ce_len t2 = 2"
    "\<exists>ws. asked t3 = asked t2 @ ws \<and> list_all (\<lambda>w. 2 \<le> length w) ws"
    by (simp_all only: list_all_iff)
  with i f1 p f2 show ?thesis by blast
qed



section \<open>The driver\<close>

text \<open>The driver's loops only call the public operations, so they inherit what those preserve.\<close>

lemma consistent_loop_refines:
  assumes "consistent_loop t = Some t'"
  shows "refines t t'"
proof (rule consistent_loop.raw_induct [where P = "\<lambda>t t'. refines t t'", OF _ assms])
  fix f t t'
  assume IH: "\<And>t t'. f t = Some t' \<Longrightarrow> refines t t'"
    and eq: "(case make_more_consistent t of (done, t1) \<Rightarrow> if done then f t1 else Some t1) = Some t'"
  obtain c t1 where c: "make_more_consistent t = (c, t1)" by (cases "make_more_consistent t")
  have 1: "refines t t1" using make_more_consistent_refines [of t] c by simp
  show "refines t t'"
  proof (cases c)
    case True
    with eq c have "f t1 = Some t'" by simp
    then have "refines t1 t'" by (rule IH)
    with 1 show ?thesis by (rule refines_trans)
  next
    case False
    with eq c 1 show ?thesis by simp
  qed
qed

lemma refine_loop_refines:
  assumes "refine_loop t = Some r"
  shows "\<forall>t'. r = Inr t' \<longrightarrow> refines t t'"
proof (rule refine_loop.raw_induct [where P = "\<lambda>t r. \<forall>t'. r = Inr t' \<longrightarrow> refines t t'", OF _ assms])
  fix f t r
  assume IH: "\<And>t r. f t = Some r \<Longrightarrow> \<forall>t'. r = Inr t' \<longrightarrow> refines t t'"
    and eq: "Option.bind (consistent_loop t) (\<lambda>t1.
       case make_more_closed t1 of
         Inl e \<Rightarrow> Some (Inl e)
       | Inr (done, t2) \<Rightarrow> if done then f t2 else Some (Inr t2)) = Some r"
  from eq obtain t1 where cl: "consistent_loop t = Some t1"
    and eq1: "(case make_more_closed t1 of
         Inl e \<Rightarrow> Some (Inl e)
       | Inr (done, t2) \<Rightarrow> if done then f t2 else Some (Inr t2)) = Some r"
    by (auto simp: bind_eq_Some_conv)
  have 1: "refines t t1" using cl by (rule consistent_loop_refines)
  show "\<forall>t'. r = Inr t' \<longrightarrow> refines t t'"
  proof (cases "make_more_closed t1")
    case (Inl e)
    with eq1 show ?thesis by auto
  next
    case (Inr p)
    obtain c t2 where p: "p = (c, t2)" by (cases p)
    have 2: "refines t1 t2" using Inr p by (blast intro: make_more_closed_refines)
    show ?thesis
    proof (cases c)
      case True
      with eq1 Inr p have "f t2 = Some r" by simp
      from IH [OF this] 1 2 show ?thesis by (blast intro: refines_trans)
    next
      case False
      with eq1 Inr p 1 2 show ?thesis by (auto intro: refines_trans)
    qed
  qed
qed

lemma lstar_loop_last_search:
  assumes "lstar_loop t0 = Some r"
  shows "\<forall>t'. r = Inr t' \<longrightarrow>
           (\<exists>t. find_counterexample t = Inr (None, t') \<and> grows t0 t)"
proof (rule lstar_loop.raw_induct
    [where P = "\<lambda>t0 r. \<forall>t'. r = Inr t' \<longrightarrow>
           (\<exists>t. find_counterexample t = Inr (None, t') \<and> grows t0 t)", OF _ assms])
  fix f t0 r
  assume IH: "\<And>t0 r. f t0 = Some r \<Longrightarrow>
     \<forall>t'. r = Inr t' \<longrightarrow> (\<exists>t. find_counterexample t = Inr (None, t') \<and> grows t0 t)"
    and eq: "Option.bind (refine_loop t0) (\<lambda>r.
       case r of
         Inl e \<Rightarrow> Some (Inl e)
       | Inr t1 \<Rightarrow>
          (case find_counterexample t1 of
             Inl e \<Rightarrow> Some (Inl e)
           | Inr (None, t2) \<Rightarrow> Some (Inr t2)
           | Inr (Some ce, t2) \<Rightarrow>
              (case resolve_counterexample ce t2 of
                 Inl e \<Rightarrow> Some (Inl e)
               | Inr t3 \<Rightarrow> f t3))) = Some r"
  show "\<forall>t'. r = Inr t' \<longrightarrow> (\<exists>t. find_counterexample t = Inr (None, t') \<and> grows t0 t)"
  proof (intro allI impI)
    fix t' assume r: "r = Inr t'"
    from eq obtain r1 where rl: "refine_loop t0 = Some r1"
      and eq1: "(case r1 of
         Inl e \<Rightarrow> Some (Inl e)
       | Inr t1 \<Rightarrow>
          (case find_counterexample t1 of
             Inl e \<Rightarrow> Some (Inl e)
           | Inr (None, t2) \<Rightarrow> Some (Inr t2)
           | Inr (Some ce, t2) \<Rightarrow>
              (case resolve_counterexample ce t2 of
                 Inl e \<Rightarrow> Some (Inl e)
               | Inr t3 \<Rightarrow> f t3))) = Some r"
      by (auto simp: bind_eq_Some_conv)
    from eq1 r obtain t1 where r1: "r1 = Inr t1" by (cases r1) auto
    from refine_loop_refines [OF rl] r1 have 1: "grows t0 t1" by (simp add: refines_grows)
    from eq1 r r1 obtain q where fc: "find_counterexample t1 = Inr q"
      by (cases "find_counterexample t1") auto
    obtain ce t2 where q: "q = (ce, t2)" by (cases q)
    have 2: "grows t1 t2" using fc q by (blast intro: find_counterexample_grows)
    show "\<exists>t. find_counterexample t = Inr (None, t') \<and> grows t0 t"
    proof (cases ce)
      case None
      with eq1 r r1 fc q have "t2 = t'" by simp
      with fc q None 1 show ?thesis by blast
    next
      case (Some w)
      with eq1 r r1 fc q obtain t3 where rc: "resolve_counterexample w t2 = Inr t3"
        and f3: "f t3 = Some r"
        by (cases "resolve_counterexample w t2") auto
      from IH [OF f3] r obtain t where t: "find_counterexample t = Inr (None, t')" "grows t3 t"
        by blast
      have "grows t2 t3" using rc by (blast intro: refines_grows resolve_counterexample_refines)
      with 1 2 t(2) have "grows t0 t" by (blast intro: grows_trans)
      with t(1) show ?thesis by blast
    qed
  qed
qed

text \<open>
  A search that finds nothing has compared the automaton with the teacher on every word
  of every length from the position it started at up to the bound, and on no shorter
  word.
\<close>

lemma test_words_none:
  assumes "test_words m teacher ws calls = Inr (None, calls')"
  shows "\<forall>w \<in> set ws. recognize m w = Inr (teacher w)"
  using assms
proof (induction ws arbitrary: calls)
  case Nil
  then show ?case by simp
next
  case (Cons w ws)
  from Cons.prems obtain pred where p: "recognize m w = Inr pred"
    by (cases "recognize m w") auto
  with Cons.prems have eq: "pred = teacher w"
    and rest: "test_words m teacher ws (calls @ [w]) = Inr (None, calls')"
    by (auto simp: Let_def split: if_splits)
  from Cons.IH [OF rest] p eq show ?case by simp
qed

lemma search_loop_none:
  assumes "search_loop m t = Inr (None, t')"
  shows "\<forall>k w. cur_ce_len t \<le> k \<and> int k \<le> max_ce_len t \<and>
           w \<in> set (all_words_of_length k (A t)) \<longrightarrow> recognize m w = Inr (T t w)"
  using assms
proof (induction m t rule: search_loop.induct)
  case (1 m t)
  show ?case
  proof (cases "int (cur_ce_len t) > max_ce_len t")
    case True
    then show ?thesis by auto
  next
    case False
    let ?ws = "all_words_of_length (cur_ce_len t) (A t)"
    from False "1.prems" obtain res where tw: "test_words m (T t) ?ws (asked t) = Inr res"
      by (cases "test_words m (T t) ?ws (asked t)") (auto simp: search_loop.simps [of m t])
    obtain r1 calls where res: "res = (r1, calls)" by (cases res)
    from False "1.prems" tw res have r1: "r1 = None"
      by (cases r1) (auto simp: search_loop.simps [of m t])
    let ?t1 = "t\<lparr>asked := calls, cur_ce_len := cur_ce_len t + 1\<rparr>"
    from False "1.prems" tw res r1 have nxt: "search_loop m ?t1 = Inr (None, t')"
      by (simp add: search_loop.simps [of m t])
    from "1.IH" [OF False tw [unfolded res] _ r1 nxt] r1
    have later: "\<forall>k w. cur_ce_len t + 1 \<le> k \<and> int k \<le> max_ce_len t \<and>
           w \<in> set (all_words_of_length k (A t)) \<longrightarrow> recognize m w = Inr (T t w)"
      by simp
    from test_words_none [OF tw [unfolded res r1]]
    have now: "\<forall>w \<in> set ?ws. recognize m w = Inr (T t w)" .
    show ?thesis
    proof (intro allI impI)
      fix k w
      assume h: "cur_ce_len t \<le> k \<and> int k \<le> max_ce_len t \<and>
           w \<in> set (all_words_of_length k (A t))"
      show "recognize m w = Inr (T t w)"
      proof (cases "k = cur_ce_len t")
        case True
        with h now show ?thesis by simp
      next
        case False
        with h have "cur_ce_len t + 1 \<le> k" by simp
        with h later show ?thesis by blast
      qed
    qed
  qed
qed

lemma find_counterexample_none:
  assumes "find_counterexample t = Inr (None, t')"
  shows "\<exists>m. dfa t' = Some m \<and> max_ce_len t' = max_ce_len t \<and>
     (\<forall>k w. cur_ce_len t \<le> k \<and> int k \<le> max_ce_len t \<and>
           w \<in> set (all_words_of_length k (A t)) \<longrightarrow> recognize m w = Inr (T t w))"
proof -
  from assms obtain m t1 where d: "to_dfa t = Inr (m, t1)"
    and s: "search_loop m (t1\<lparr>dfa := Some m\<rparr>) = Inr (None, t')"
    by (auto simp: find_counterexample_def split: sum.splits)
  from to_dfa_table [OF d] obtain rows where t1: "t1 = t\<lparr>S_rows := rows\<rparr>" by blast
  from search_loop_result [OF s] have "dfa t' = Some m" "max_ce_len t' = max_ce_len t"
    by (auto simp: t1)
  with search_loop_none [OF s] show ?thesis by (auto simp: t1)
qed

lemma lstar_fuel_sound: "lstar_fuel n t = Some r \<Longrightarrow> lstar_loop t = Some r"
proof (induction n arbitrary: t)
  case 0
  then show ?case by simp
next
  case (Suc n)
  obtain c1 t1 where c: "make_more_consistent t = (c1, t1)" by (cases "make_more_consistent t")
  show ?case
  proof (cases c1)
    case True
    with c Suc.prems have "lstar_fuel n t1 = Some r" by simp
    then have "lstar_loop t1 = Some r" by (rule Suc.IH)
    moreover have "consistent_loop t = consistent_loop t1"
      using c True by (subst consistent_loop.simps) simp
    then have "refine_loop t = refine_loop t1"
      by (simp add: refine_loop.simps [of t] refine_loop.simps [of t1])
    then have "lstar_loop t = lstar_loop t1"
      by (simp add: lstar_loop.simps [of t] lstar_loop.simps [of t1])
    ultimately show ?thesis by simp
  next
    case False
    with c have cl: "consistent_loop t = Some t1"
      by (subst consistent_loop.simps) simp
    show ?thesis
    proof (cases "make_more_closed t1")
      case (Inl e)
      with c False Suc.prems have "r = Inl e" by simp
      moreover from cl Inl have "refine_loop t = Some (Inl e)"
        by (simp add: refine_loop.simps [of t])
      ultimately show ?thesis by (simp add: lstar_loop.simps [of t])
    next
      case (Inr p)
      obtain c2 t2 where p: "p = (c2, t2)" by (cases p)
      show ?thesis
      proof (cases c2)
        case True
        with c False Inr p Suc.prems have "lstar_fuel n t2 = Some r" by simp
        then have "lstar_loop t2 = Some r" by (rule Suc.IH)
        moreover from cl Inr p True have "refine_loop t = refine_loop t2"
          by (simp add: refine_loop.simps [of t])
        then have "lstar_loop t = lstar_loop t2"
          by (simp add: lstar_loop.simps [of t] lstar_loop.simps [of t2])
        ultimately show ?thesis by simp
      next
        case c2: False
        with cl Inr p have rl: "refine_loop t = Some (Inr t2)"
          by (simp add: refine_loop.simps [of t])
        show ?thesis
        proof (cases "find_counterexample t2")
          case (Inl e)
          with c False Inr p c2 Suc.prems have "r = Inl e" by simp
          with rl Inl show ?thesis by (simp add: lstar_loop.simps [of t])
        next
          case fc: (Inr q)
          obtain ce t3 where q: "q = (ce, t3)" by (cases q)
          show ?thesis
          proof (cases ce)
            case None
            with c False Inr p c2 fc q Suc.prems have "r = Inr t3" by simp
            with rl fc q None show ?thesis by (simp add: lstar_loop.simps [of t])
          next
            case (Some w)
            show ?thesis
            proof (cases "resolve_counterexample w t3")
              case (Inl e)
              with c False Inr p c2 fc q Some Suc.prems have "r = Inl e" by simp
              with rl fc q Some Inl show ?thesis by (simp add: lstar_loop.simps [of t])
            next
              case rc: (Inr t4)
              with c False Inr p c2 fc q Some Suc.prems have "lstar_fuel n t4 = Some r" by simp
              then have "lstar_loop t4 = Some r" by (rule Suc.IH)
              with rl fc q Some rc show ?thesis by (simp add: lstar_loop.simps [of t])
            qed
          qed
        qed
      qed
    qed
  qed
qed



text \<open>
  A run to the end. The teacher accepts \<open>aaa\<close>, \<open>abb\<close> and \<open>bab\<close> and nothing
  else; the alphabet is \<open>ab\<close> and the cap is 3. The first automaton rejects
  everything and is right on all words of length 2; \<open>aaa\<close> is found at length 3. The
  second is wrong on \<open>abb\<close>. The third is right on every word of length 3, the
  search ends, and the third automaton accepts \<open>bb\<close>.
\<close>

lemma three_words_run:
  "candidate_accepts
     (lstar_fuel 16 (fill_SdotA_rows (fill_S_rows (new_table ab three_words))\<lparr>max_ce_len := 3\<rparr>))
     (str_of ''bb'') = Some (Inr True)"
  by code_simp

lemma three_words_lstar:
  "\<exists>t'. lstar ab three_words (Some 3) 100000 = Some (Inr t') \<and>
        lstar_fuel 16 (fill_SdotA_rows (fill_S_rows (new_table ab three_words))\<lparr>max_ce_len := 3\<rparr>)
          = Some (Inr t')"
proof -
  let ?t0 = "fill_SdotA_rows (fill_S_rows (new_table ab three_words))\<lparr>max_ce_len := 3\<rparr>"
  from three_words_run obtain t' where f: "lstar_fuel 16 ?t0 = Some (Inr t')"
    by (auto simp: candidate_accepts_def split: option.splits sum.splits)
  then have "lstar_loop ?t0 = Some (Inr t')" by (rule lstar_fuel_sound)
  then have "lstar ab three_words (Some 3) 100000 = Some (Inr t')"
    by (simp add: lstar_def init_two_symbols [OF length_ab])
  with f show ?thesis by blast
qed

lemma lstar_bound:
  assumes "lstar alphabet teacher cap m = Some (Inr t')" and "init alphabet teacher cap m = Inr t0"
  shows "max_ce_len t' = max_ce_len t0"
proof -
  from assms have l: "lstar_loop t0 = Some (Inr t')" by (simp add: lstar_def)
  from lstar_loop_last_search [OF l] obtain t where
    "find_counterexample t = Inr (None, t')" "grows t0 t" by blast
  then show ?thesis by (auto simp: grows_def dest: find_counterexample_grows)
qed

definition search_bound :: "(error + ObservationTable) option \<Rightarrow> int option" where
  "search_bound r = (case r of Some (Inr t) \<Rightarrow> Some (max_ce_len t) | _ \<Rightarrow> None)"

text \<open>
  C1. The claim says that the returned automaton agrees with the teacher on every string
  up to the bound, and the docstring of \<open>lstar\<close> says the same (the table is returned
  \<open>when no counterexample can be found\<close>, the equivalence query being answered \<open>by
  making membership queries exhaustively within a finite search space\<close>). In the run
  \<open>lstar('ab', lambda s: s in ('aaa', 'abb', 'bab'), max_ce_len=3)\<close> the bound is 3, the
  string \<open>bb\<close> has length 2, the teacher rejects it and the returned automaton accepts
  it: \<open>cur_ce_len\<close> is never reset, so the last search started at length 3, where the
  search before it had stopped, and no search compared the last automaton with the
  teacher on a word of length 2.
\<close>

theorem lstar_candidate_wrong_within_bound:
  "candidate_accepts (lstar ab three_words (Some 3) 100000) (str_of ''bb'') = Some (Inr True) \<and>
   three_words (str_of ''bb'') = False \<and>
   search_bound (lstar ab three_words (Some 3) 100000) = Some 3"
proof -
  let ?t0 = "fill_SdotA_rows (fill_S_rows (new_table ab three_words))\<lparr>max_ce_len := 3\<rparr>"
  from three_words_lstar obtain t' where
    l: "lstar ab three_words (Some 3) 100000 = Some (Inr t')"
    and f: "lstar_fuel 16 ?t0 = Some (Inr t')" by blast
  have i: "init ab three_words (Some 3) 100000 = Inr ?t0"
    by (simp add: init_two_symbols [OF length_ab])
  from three_words_run have "candidate_accepts (lstar ab three_words (Some 3) 100000)
      (str_of ''bb'') = Some (Inr True)"
    by (simp only: l f)
  moreover have "three_words (str_of ''bb'') = False"
    by (simp add: three_words_def str_of_def)
  moreover from lstar_bound [OF l i] have "search_bound (lstar ab three_words (Some 3) 100000) = Some 3"
    by (simp add: search_bound_def l)
  ultimately show ?thesis by blast
qed


section \<open>Names of states\<close>

lemma pos_eq: "a \<in> set ys \<Longrightarrow> b \<in> set ys \<Longrightarrow> pos a ys = pos b ys \<Longrightarrow> a = b"
  by (induction ys) (auto split: if_splits)

lemma find_first_pos:
  "find P ys = Some r \<Longrightarrow> y \<in> set ys \<Longrightarrow> P y \<Longrightarrow> pos r ys \<le> pos y ys"
  by (induction ys) (auto split: if_splits)

lemma find_Some_in: "find P ys = Some r \<Longrightarrow> r \<in> set ys \<and> P r"
  by (induction ys) (auto split: if_splits)

lemma sorted_pos_mono:
  "sorted (map f ys) \<Longrightarrow> a \<in> set ys \<Longrightarrow> b \<in> set ys \<Longrightarrow> pos a ys \<le> pos b ys \<Longrightarrow> f a \<le> f b"
  by (induction ys) (auto split: if_splits)

lemma pos_filter:
  "a \<in> set ys \<Longrightarrow> b \<in> set ys \<Longrightarrow> keep a \<Longrightarrow> keep b \<Longrightarrow>
     pos a (filter keep ys) \<le> pos b (filter keep ys) \<longleftrightarrow> pos a ys \<le> pos b ys"
  by (induction ys) (auto split: if_splits)

lemma sort_key_stable_pos:
  assumes "a \<in> set xs" "b \<in> set xs" "f a = f b"
  shows "pos a (sort_key f xs) \<le> pos b (sort_key f xs) \<longleftrightarrow> pos a xs \<le> pos b xs"
proof -
  let ?K = "\<lambda>y. f y = f b"
  have "pos a (sort_key f xs) \<le> pos b (sort_key f xs)
        \<longleftrightarrow> pos a (filter ?K (sort_key f xs)) \<le> pos b (filter ?K (sort_key f xs))"
    using assms by (subst pos_filter) simp_all
  also have "\<dots> \<longleftrightarrow> pos a (filter ?K xs) \<le> pos b (filter ?K xs)"
    by (simp only: sort_key_stable)
  also have "\<dots> \<longleftrightarrow> pos a xs \<le> pos b xs"
    using assms by (subst pos_filter) simp_all
  finally show ?thesis .
qed

lemma sort_key_length_hd:
  assumes "[] \<in> set xs"
  shows "\<exists>zs. sort_key length xs = [] # zs \<and> set xs - {[]} \<subseteq> set zs"
proof -
  let ?ys = "sort_key length xs"
  from assms have ne: "?ys \<noteq> []" by (metis empty_iff list.set(1) set_sort)
  then obtain y zs where ys: "?ys = y # zs" by (cases ?ys) auto
  have srt: "sorted (map length ?ys)" by (rule sorted_sort_key)
  have "[] \<in> set ?ys" using assms by simp
  with srt ys have "length y \<le> length ([]::'a list)" by (auto simp: ys)
  then have "y = []" by simp
  moreover have "set xs = set ?ys" by simp
  then have "set xs - {[]} \<subseteq> set zs" unfolding ys \<open>y = []\<close> by auto
  ultimately show ?thesis using ys by blast
qed

lemma S_rows_get_present:
  "map_of (S_rows t) s \<noteq> None \<Longrightarrow> S_rows_get s t = (row_of t s, t)"
  by (auto simp: S_rows_get_def dd_get_def row_of_def table_get_def)

lemma row_to_state_loop_find:
  assumes "\<forall>s \<in> set ss. map_of (S_rows t) s \<noteq> None"
  shows "row_to_state_loop ss rts t =
           (\<lambda>k. case rts k of Some q \<Rightarrow> Some q | None \<Rightarrow> find (\<lambda>s. row_of t s = k) ss, t)"
  using assms
proof (induction ss arbitrary: rts)
  case Nil
  show ?case by (auto split: option.splits)
next
  case (Cons s ss)
  then have g: "S_rows_get s t = (row_of t s, t)" and rest: "\<forall>s \<in> set ss. map_of (S_rows t) s \<noteq> None"
    by (simp_all add: S_rows_get_present)
  show ?case
  proof (cases "rts (row_of t s) = None")
    case True
    then show ?thesis
      by (auto simp: g Cons.IH [OF rest] fun_eq_iff split: option.splits)
  next
    case False
    then show ?thesis
      by (auto simp: g Cons.IH [OF rest] fun_eq_iff split: option.splits)
  qed
qed

lemma make_row_to_state_map_find:
  assumes "\<forall>s \<in> set (S t). map_of (S_rows t) s \<noteq> None" and "[] \<in> set (S t)"
  shows "make_row_to_state_map t =
           (\<lambda>k. if k = row_of t [] then Some lam
                else find (\<lambda>s. row_of t s = k) (tl (sort_key length (S t))), t)"
proof -
  from assms have g: "S_rows_get [] t = (row_of t [], t)" by (simp add: S_rows_get_present)
  have "set (tl (sort_key length (S t))) \<subseteq> set (S t)"
    by (metis list.set_sel(2) set_sort subsetI tl_Nil)
  with assms(1) have "\<forall>s \<in> set (tl (sort_key length (S t))). map_of (S_rows t) s \<noteq> None"
    by blast
  from row_to_state_loop_find [OF this] show ?thesis
    by (auto simp: make_row_to_state_map_def g split: option.splits)
qed


lemmas table_eval =
  fill_S_rows_def fill_SdotA_rows_def fill_row_def dd_get_def get_rows_def set_rows_def
  query_def Let_def new_table_def py_set_def set_add_def str_of_def lam_def
  S_rows_get_def make_more_consistent_def make_more_closed_def add_extension_def
  make_row_to_state_map_def to_dfa_def to_dfa_step_def add_transition_def dict_update_all_def table_get_def
  find_counterexample_def recognize_def next_state_def is_final_def
  resolve_counterexample_def resolve_prefix_def discard_from_SdotA_def
  add_extension_unless_in_S_def learning_run_def is_closed_def is_consistent_def row_of_def

lemma tie_table_reached:
  "learning_run ab odd_length None 100000
     [Resolve_counterexample (str_of ''b''), Resolve_counterexample (str_of ''a'')] = Inr tie_table"
  unfolding learning_run_def init_two_symbols [OF length_ab] sum.case option.case
  by (simp add: table_eval tie_table_def ab_def odd_length_def)

text \<open>
  C7 (as stated). The claim says that among the shortest prefixes of a row the
  lexicographically earliest names the state. \<open>_make_row_to_state_map\<close> sorts \<open>S\<close> by
  length only, and the sort is stable: among prefixes of one length the one that comes
  first when \<open>S\<close> is iterated wins. In \<open>tie_table\<close>, closed and consistent, \<open>"a"\<close> and
  \<open>"b"\<close> have the same row and \<open>"b"\<close> is iterated first: the row is named \<open>"b"\<close>.
\<close>

theorem representative_not_lexicographic:
  "is_closed tie_table \<and> is_consistent tie_table \<and>
   S tie_table = [[], str_of ''b'', str_of ''a''] \<and>
   row_of tie_table (str_of ''a'') = [True] \<and> row_of tie_table (str_of ''b'') = [True] \<and>
   fst (make_row_to_state_map tie_table) [True] = Some (str_of ''b'')"
  by (simp add: table_eval tie_table_def ab_def odd_length_def)

text \<open>
  C7 (amended). In a table whose prefixes all have rows and whose \<open>S\<close> holds the empty
  prefix, closed and consistent or not, the row of the empty prefix is
  named \<open>\<lambda>\<close>; every other row of \<open>S\<close> is named by a prefix of \<open>S\<close> with that row that is
  shortest, and among the shortest the first in the iteration order of \<open>S\<close>; and the
  initial state of an extracted automaton is \<open>\<lambda>\<close>, the name of the empty prefix's row.
\<close>

theorem representative_is_first_shortest:
  assumes rows: "\<forall>s \<in> set (S t). map_of (S_rows t) s \<noteq> None" and empty: "[] \<in> set (S t)"
  shows "fst (make_row_to_state_map t) (row_of t []) = Some lam \<and>
         (\<forall>s \<in> set (S t). row_of t s \<noteq> row_of t [] \<longrightarrow>
            (\<exists>r \<in> set (S t). fst (make_row_to_state_map t) (row_of t s) = Some r \<and>
               row_of t r = row_of t s \<and>
               (\<forall>s' \<in> set (S t). row_of t s' = row_of t s \<longrightarrow>
                  length r < length s' \<or>
                  (length r = length s' \<and> pos r (S t) \<le> pos s' (S t))))) \<and>
         (\<forall>m t'. to_dfa t = Inr (m, t') \<longrightarrow> q0 m = lam)"
proof (intro conjI ballI impI allI)
  show "fst (make_row_to_state_map t) (row_of t []) = Some lam"
    by (simp add: make_row_to_state_map_find [OF rows empty])
next
  fix s assume s: "s \<in> set (S t)" and ne: "row_of t s \<noteq> row_of t []"
  let ?ys = "sort_key length (S t)"
  let ?P = "\<lambda>x. row_of t x = row_of t s"
  from sort_key_length_hd [OF empty] obtain zs where
    ys: "?ys = [] # zs" and zs: "set (S t) - {[]} \<subseteq> set zs" by blast
  have zsub: "set zs \<subseteq> set (S t)"
    by (metis list.set_intros(2) set_sort subsetI ys)
  have m: "fst (make_row_to_state_map t) (row_of t s) = find ?P zs"
    using ne by (simp add: make_row_to_state_map_find [OF rows empty] ys)
  from s ne zs have "s \<in> set zs" by auto
  then obtain r where r: "find ?P zs = Some r"
    by (cases "find ?P zs") (auto simp: find_None_iff)
  from find_Some_in [OF r] have rz: "r \<in> set zs" and rr: "row_of t r = row_of t s" by simp_all
  have rS: "r \<in> set (S t)" using rz zsub by blast
  have "\<forall>s' \<in> set (S t). row_of t s' = row_of t s \<longrightarrow>
          length r < length s' \<or> (length r = length s' \<and> pos r (S t) \<le> pos s' (S t))"
  proof (intro ballI impI)
    fix s' assume s': "s' \<in> set (S t)" and eq: "row_of t s' = row_of t s"
    from s' eq ne zs have s'z: "s' \<in> set zs" by auto
    from find_first_pos [OF r s'z eq] have p: "pos r zs \<le> pos s' zs" .
    have srt: "sorted (map length zs)"
      using sorted_sort_key [of length "S t"] by (simp add: ys)
    from sorted_pos_mono [OF srt rz s'z p] have le: "length r \<le> length s'" .
    show "length r < length s' \<or> (length r = length s' \<and> pos r (S t) \<le> pos s' (S t))"
    proof (cases "length r = length s'")
      case True
      from ne rr eq have "r \<noteq> []" "s' \<noteq> []" by auto
      with p have "pos r ?ys \<le> pos s' ?ys" by (simp add: ys)
      with sort_key_stable_pos [OF rS s' True] True show ?thesis by simp
    next
      case False
      with le show ?thesis by simp
    qed
  qed
  with rS m r rr
  show "\<exists>r \<in> set (S t). fst (make_row_to_state_map t) (row_of t s) = Some r \<and>
               row_of t r = row_of t s \<and>
               (\<forall>s' \<in> set (S t). row_of t s' = row_of t s \<longrightarrow>
                  length r < length s' \<or>
                  (length r = length s' \<and> pos r (S t) \<le> pos s' (S t)))"
    by auto
next
  fix m t' assume d: "to_dfa t = Inr (m, t')"
  have g: "S_rows_get [] t = (row_of t [], t)" using rows empty by (simp add: S_rows_get_present)
  from d show "q0 m = lam"
    by (auto simp: to_dfa_def make_row_to_state_map_find [OF rows empty] g Let_def
        split: sum.splits prod.splits)
qed


theorem representative_is_first_shortest_witness:
  "fst (make_row_to_state_map tie_table) (row_of tie_table []) = Some lam \<and>
   (\<exists>r \<in> set (S tie_table).
      fst (make_row_to_state_map tie_table) (row_of tie_table (str_of ''a'')) = Some r \<and>
      row_of tie_table r = row_of tie_table (str_of ''a'') \<and>
      (length r < length (str_of ''a'') \<or>
       length r = length (str_of ''a'') \<and> pos r (S tie_table) \<le> pos (str_of ''a'') (S tie_table)))"
proof -
  have rows: "\<forall>s \<in> set (S tie_table). map_of (S_rows tie_table) s \<noteq> None"
    and empty: "[] \<in> set (S tie_table)"
    and a: "str_of ''a'' \<in> set (S tie_table)"
    and ne: "row_of tie_table (str_of ''a'') \<noteq> row_of tie_table []"
    by (simp_all add: tie_table_def str_of_def row_of_def table_get_def)
  from representative_is_first_shortest [OF rows empty] a ne show ?thesis by blast
qed


section \<open>Extraction on an alphabet that holds the symbol \<open>\<lambda>\<close>\<close>

lemma length_la: "length la = 2"
  by (simp add: la_def)

lemma lambda_table_data:
  "\<not> isl (perform_all
     [Make_more_consistent, Make_more_closed, Make_more_consistent, Make_more_closed,
      Find_counterexample, Resolve_counterexample (lam @ lam),
      Make_more_consistent, Make_more_consistent, Make_more_closed]
     (fill_SdotA_rows (fill_S_rows (new_table la empty_or_lambda))\<lparr>max_ce_len := 15\<rparr>)) \<and>
   table_data (projr (perform_all
     [Make_more_consistent, Make_more_closed, Make_more_consistent, Make_more_closed,
      Find_counterexample, Resolve_counterexample (lam @ lam),
      Make_more_consistent, Make_more_consistent, Make_more_closed]
     (fill_SdotA_rows (fill_S_rows (new_table la empty_or_lambda))\<lparr>max_ce_len := 15\<rparr>)))
   = table_data lambda_table"
  by code_simp

lemma lambda_table_reached:
  "learning_run la empty_or_lambda None 100000
     [Make_more_consistent, Make_more_closed, Make_more_consistent, Make_more_closed,
      Find_counterexample, Resolve_counterexample (lam @ lam),
      Make_more_consistent, Make_more_consistent, Make_more_closed] = Inr lambda_table"
proof -
  let ?t0 = "fill_SdotA_rows (fill_S_rows (new_table la empty_or_lambda))\<lparr>max_ce_len := 15\<rparr>"
  let ?xs = "[Make_more_consistent, Make_more_closed, Make_more_consistent, Make_more_closed,
      Find_counterexample, Resolve_counterexample (lam @ lam),
      Make_more_consistent, Make_more_consistent, Make_more_closed]"
  from lambda_table_data obtain t where t: "perform_all ?xs ?t0 = Inr t"
    using returned by blast
  with lambda_table_data have data: "table_data t = table_data lambda_table" by simp
  from perform_all_grows [OF t] have "A t = la" "T t = empty_or_lambda" "max_ce_len t = 15"
    by (simp_all add: grows_def)
  with data have "t = lambda_table"
    by (intro ObservationTable.equality) (simp_all add: table_data_def lambda_table_def)
  with t show ?thesis
    unfolding learning_run_def init_two_symbols [OF length_la] by simp
qed

lemma lambda_table_fails:
  "is_closed lambda_table \<and> is_consistent lambda_table \<and>
   map_sum id (\<lambda>r. ()) (to_dfa lambda_table) = Inl InconsistentTable"
  by code_simp

lemma lambda_run:
  "map_option (map_sum id (\<lambda>t. ()))
     (lstar_fuel 16 (fill_SdotA_rows (fill_S_rows (new_table la empty_or_lambda))\<lparr>max_ce_len := 15\<rparr>))
   = Some (Inl InconsistentTable)"
  by code_simp


text \<open>
  C5. The claim says that on a closed and consistent table the assertion of \<open>to_dfa\<close>
  never fires. \<open>_make_row_to_state_map\<close> names the row of the empty prefix \<open>\<lambda>\<close> and
  every other row by a prefix. When \<open>\<lambda>\<close> is a symbol of the alphabet, the prefix \<open>\<lambda>\<close>
  can name a second row, and two states share one name. In \<open>lambda_table\<close>, closed and
  consistent, the rows of \<open>""\<close> and \<open>"\<lambda>"\<close> differ and are both named \<open>\<lambda>\<close>; their
  transitions on the symbol \<open>\<lambda>\<close> lead to different states, and the assertion fires.
  The driver ends with that error.
\<close>

theorem to_dfa_fails_on_closed_consistent_table:
  "is_closed lambda_table \<and> is_consistent lambda_table \<and>
   to_dfa lambda_table = Inl InconsistentTable \<and>
   lstar la empty_or_lambda None 100000 = Some (Inl InconsistentTable)"
proof -
  let ?t0 = "fill_SdotA_rows (fill_S_rows (new_table la empty_or_lambda))\<lparr>max_ce_len := 15\<rparr>"
  from lambda_table_fails have 1: "is_closed lambda_table \<and> is_consistent lambda_table \<and>
      to_dfa lambda_table = Inl InconsistentTable"
    by (cases "to_dfa lambda_table") auto
  from lambda_run have "lstar_fuel 16 ?t0 = Some (Inl InconsistentTable)"
    by (cases "lstar_fuel 16 ?t0") (auto simp: map_sum_def split: sum.splits)
  then have "lstar_loop ?t0 = Some (Inl InconsistentTable)" by (rule lstar_fuel_sound)
  then have "lstar la empty_or_lambda None 100000 = Some (Inl InconsistentTable)"
    by (simp add: lstar_def init_two_symbols [OF length_la])
  with 1 show ?thesis by blast
qed


section \<open>Extraction on an alphabet with a symbol of two characters\<close>




text \<open>
  When no symbol is a proper prefix of a key, the split leaves a prefix that has no row,
  and no automaton is built at all: \<open>lstar(['ab', 'c'], lambda s: s == 'c', max_ce_len=2)\<close>
  ends with \<open>KeyError\<close> in its first extraction.
\<close>

lemma token_run:
  "map_option (map_sum id (\<lambda>t. ()))
     (lstar_fuel 16 (fill_SdotA_rows (fill_S_rows (new_table [str_of ''ab'', str_of ''c''] only_c))\<lparr>max_ce_len := 2\<rparr>))
   = Some (Inl KeyError)"
  by code_simp

lemma lstar_token_alphabet_fails:
  "lstar [str_of ''ab'', str_of ''c''] only_c (Some 2) 100000 = Some (Inl KeyError)"
proof -
  let ?t0 = "fill_SdotA_rows (fill_S_rows (new_table [str_of ''ab'', str_of ''c''] only_c))\<lparr>max_ce_len := 2\<rparr>"
  from token_run have "lstar_fuel 16 ?t0 = Some (Inl KeyError)"
    by (cases "lstar_fuel 16 ?t0") (auto simp: map_sum_def split: sum.splits)
  then have "lstar_loop ?t0 = Some (Inl KeyError)" by (rule lstar_fuel_sound)
  then show ?thesis by (simp add: lstar_def init_two_symbols)
qed


end
